theory Spec2Isabelle
  imports Complex_Main
begin

section \<open>Data model (packages/shared/src/results.ts, packages/backend/src/utils/grep.ts)\<close>

text \<open>
  Strings are lists of code units. A \<^typ>\<open>char\<close> stands for one code unit of the
  program's strings (the units below 256); lengths and offsets count code units, as
  \<^verbatim>\<open>String.length\<close>, \<^verbatim>\<open>indexOf\<close> and \<^verbatim>\<open>match.index\<close> do.
\<close>

datatype source_kind = request | response

text \<open>\<^verbatim>\<open>interface ExtractedMatch { value; startIndex; endIndex }\<close>\<close>

record ExtractedMatch =
  "value" :: string
  startIndex :: int
  endIndex :: int

text \<open>
  \<^verbatim>\<open>interface MatchResult { value; requestId; source; startIndex; endIndex }\<close>:
  the fields of an ExtractedMatch and the attribution of the record it came from.
\<close>

record MatchResult = ExtractedMatch +
  requestId :: string
  source :: source_kind

text \<open>
  \<^verbatim>\<open>interface GrepOptions\<close>; \<open>None\<close> is \<^verbatim>\<open>null\<close>. \<open>maxResults\<close> and the
  group indices are the unsigned integers the options carry.
\<close>

record GrepOptions =
  includeRequests :: bool
  includeResponses :: bool
  maxResults :: "nat option"
  matchGroups :: "nat list option"
  onlyInScope :: bool
  skipLargeResponses :: bool
  customHTTPQL :: "string option"
  cleanupOutput :: bool
  transformScript :: "string option"

subsection \<open>The regular-expression engine of the platform\<close>

text \<open>
  The engine is not code of the repository. One element of
  \<^verbatim>\<open>Array.from(text.matchAll(new RegExp(regex, "g")))\<close> is a match object:
  \<open>index\<close> is \<^verbatim>\<open>match.index\<close> (always defined for \<^verbatim>\<open>matchAll\<close>, so the
  \<^verbatim>\<open>?? 0\<close> of the source never applies), \<open>whole\<close> is \<^verbatim>\<open>match[0]\<close>, and
  \<open>captures\<close> are \<^verbatim>\<open>match[1]\<close>, \<^verbatim>\<open>match[2]\<close>, ... where \<open>None\<close> is
  \<^verbatim>\<open>undefined\<close> (the group did not participate).
\<close>

record rmatch =
  index :: nat
  whole :: string
  captures :: "string option list"

text \<open>
  A compiled \<^verbatim>\<open>RegExp\<close>: its \<^verbatim>\<open>source\<close> text and what \<^verbatim>\<open>matchAll\<close> with
  the global flag returns on a text.
\<close>

record regex =
  regexSource :: string
  matchAll :: "string \<Rightarrow> rmatch list"

text \<open>\<^verbatim>\<open>match[groupIndex]\<close>: reading past the last group gives \<^verbatim>\<open>undefined\<close>.\<close>

definition matchGroup :: "rmatch \<Rightarrow> nat \<Rightarrow> string option" where
  "matchGroup m g =
     (if g = 0 then Some (whole m)
      else if g - 1 < length (captures m) then captures m ! (g - 1)
      else None)"

text \<open>
  \<^verbatim>\<open>s.indexOf(v)\<close>: the least offset at which \<open>v\<close> occurs in \<open>s\<close>, or \<open>-1\<close>.
\<close>

definition occursAt :: "string \<Rightarrow> string \<Rightarrow> nat \<Rightarrow> bool" where
  "occursAt s v i = (take (length v) (drop i s) = v)"

definition indexOf :: "string \<Rightarrow> string \<Rightarrow> int" where
  "indexOf s v =
     (case find (occursAt s v) [0..<Suc (length s)] of
        Some i \<Rightarrow> int i
      | None \<Rightarrow> - 1)"

text \<open>\<^verbatim>\<open>text.slice(a, b)\<close> for \<open>0 \<le> a \<le> b\<close>.\<close>

definition slice :: "string \<Rightarrow> int \<Rightarrow> int \<Rightarrow> string" where
  "slice s a b = take (nat b - nat a) (drop (nat a) s)"

text \<open>
  What the engine guarantees about a match object of a text: the whole match lies
  inside the text and is the slice of the text at \<open>index\<close>.
\<close>

definition matchOf :: "string \<Rightarrow> rmatch \<Rightarrow> bool" where
  "matchOf text m =
     (index m + length (whole m) \<le> length text \<and>
      take (length (whole m)) (drop (index m) text) = whole m)"

text \<open>
  \<open>j\<close> is the first offset at which \<open>v\<close> occurs in \<open>s\<close> (what a successful
  \<^verbatim>\<open>indexOf\<close> is specified to return).
\<close>

definition firstOccurrence :: "string \<Rightarrow> string \<Rightarrow> nat \<Rightarrow> bool" where
  "firstOccurrence s v j = (occursAt s v j \<and> (\<forall>i\<in>set [0..<j]. \<not> occursAt s v i))"

section \<open>extractMatches (packages/backend/src/utils/grep.ts, lines 77-129)\<close>

text \<open>The record pushed for the whole match (lines 93-97 and 120-124).\<close>

definition wholeMatch :: "rmatch \<Rightarrow> ExtractedMatch" where
  "wholeMatch m =
     \<lparr>value = whole m,
      startIndex = int (index m),
      endIndex = int (index m) + int (length (whole m))\<rparr>"

text \<open>
  The inner loop over \<^verbatim>\<open>matchGroups\<close> (lines 102-117): the first listed group
  that is not \<^verbatim>\<open>undefined\<close> is pushed and the loop breaks; \<open>None\<close> is
  \<^verbatim>\<open>foundMatch === false\<close>.
\<close>

fun scanGroups :: "rmatch \<Rightarrow> nat list \<Rightarrow> ExtractedMatch option" where
  "scanGroups m [] = None"
| "scanGroups m (groupIndex # rest) =
     (case matchGroup m groupIndex of
        Some groupValue \<Rightarrow>
          (let groupOffset = indexOf (whole m) groupValue;
               start = int (index m) + (if groupOffset \<ge> 0 then groupOffset else 0)
           in Some \<lparr>value = groupValue,
                     startIndex = start,
                     endIndex = start + int (length groupValue)\<rparr>)
      | None \<Rightarrow> scanGroups m rest)"

text \<open>The body of the loop over the matches (lines 89-126): what is pushed for one match.\<close>

definition extractOne :: "nat list option \<Rightarrow> rmatch \<Rightarrow> ExtractedMatch" where
  "extractOne groups m =
     (case groups of
        None \<Rightarrow> wholeMatch m
      | Some gs \<Rightarrow>
          (if length gs = 0 then wholeMatch m
           else case scanGroups m gs of
                  Some e \<Rightarrow> e
                | None \<Rightarrow> wholeMatch m))"

fun extractLoop :: "nat list option \<Rightarrow> rmatch list \<Rightarrow> ExtractedMatch list \<Rightarrow> ExtractedMatch list" where
  "extractLoop groups [] results = results"
| "extractLoop groups (m # ms) results = extractLoop groups ms (results @ [extractOne groups m])"

definition extractMatches :: "string \<Rightarrow> regex \<Rightarrow> nat list option \<Rightarrow> ExtractedMatch list" where
  "extractMatches text rx groups =
     (if text = [] then []
      else let ms = matchAll rx text
           in if ms = [] then [] else extractLoop groups ms [])"

section \<open>buildRegexFilter (packages/backend/src/utils/grep.ts, lines 6-65)\<close>

definition CLEANUP_EXTENSIONS :: "string list" where
  "CLEANUP_EXTENSIONS =
     [''%.apng'', ''%.avif'', ''%.gif'', ''%.jpg'', ''%.jpeg'', ''%.pjpeg'', ''%.pjp'',
      ''%.png'', ''%.svg'', ''%.webp'', ''%.bmp'', ''%.ico'', ''%.cur'', ''%.tif'',
      ''%.tiff'', ''%.mp4'', ''%.mp3'', ''%.ttf'']"

definition backslash :: char where
  "backslash = CHR 0x5C"

definition dquote :: char where
  "dquote = CHR 0x22"

text \<open>
  \<^verbatim>\<open>s.replace(/c/g, r)\<close> for a pattern that matches the single character \<open>c\<close>
  and a replacement text without \<^verbatim>\<open>$\<close>.
\<close>

definition replaceAll :: "char \<Rightarrow> string \<Rightarrow> string \<Rightarrow> string" where
  "replaceAll c r s = concat (map (\<lambda>x. if x = c then r else [x]) s)"

text \<open>\<^verbatim>\<open>filters.join(sep)\<close>\<close>

fun join :: "string \<Rightarrow> string list \<Rightarrow> string" where
  "join sep [] = []"
| "join sep [x] = x"
| "join sep (x # y # ys) = x @ sep @ join sep (y # ys)"

text \<open>
  The function as it is written: the two \<^verbatim>\<open>replace\<close> passes, the array of
  terms and its \<^verbatim>\<open>join\<close>, the reassignments of \<^verbatim>\<open>regexFilter\<close>, and the loop
  over the extensions. A \<^verbatim>\<open>customHTTPQL\<close> that is \<^verbatim>\<open>null\<close> or empty is falsy.
\<close>

definition buildRegexFilter :: "regex \<Rightarrow> GrepOptions \<Rightarrow> string" where
  "buildRegexFilter rx opts =
     (let escapedRegexStr =
            replaceAll dquote [backslash, dquote]
              (replaceAll backslash [backslash, backslash] (regexSource rx));
          filters1 =
            (if includeRequests opts
             then [''req.raw.regex:'' @ [dquote] @ escapedRegexStr @ [dquote]]
             else []);
          filters =
            (if includeResponses opts
             then filters1 @ [''resp.raw.regex:'' @ [dquote] @ escapedRegexStr @ [dquote]]
             else filters1);
          regexFilter1 =
            (if length filters > 0 then ''('' @ join '' or '' filters @ '')'' else []);
          regexFilter2 =
            (case customHTTPQL opts of
               None \<Rightarrow> regexFilter1
             | Some q \<Rightarrow> if q = [] then regexFilter1 else q @ '' and '' @ regexFilter1);
          regexFilter3 =
            (if skipLargeResponses opts
             then regexFilter2 @ '' and resp.len.lt:10485760''
             else regexFilter2 @ '' and resp.len.lt:104857600'')
      in foldl (\<lambda>regexFilter ext. regexFilter @ '' and req.ext.nlike:'' @ [dquote] @ ext @ [dquote])
           regexFilter3 CLEANUP_EXTENSIONS)"

subsection \<open>The filter as the specification describes it\<close>

text \<open>
  Escaping changes a backslash and a double quote and nothing else.
\<close>

definition escapeChar :: "char \<Rightarrow> string" where
  "escapeChar c =
     (if c = backslash then [backslash, backslash]
      else if c = dquote then [backslash, dquote]
      else [c])"

definition quoted :: "string \<Rightarrow> string" where
  "quoted s = [dquote] @ s @ [dquote]"

text \<open>
  One chain: the custom expression and \<open>and\<close> when present; the parenthesised
  \<open>or\<close> of the request and response terms, gated by the two flags and empty when
  neither is set; the size bound; the exclusion term of every extension.
\<close>

definition filter_spec :: "regex \<Rightarrow> GrepOptions \<Rightarrow> string" where
  "filter_spec rx opts =
     (let pat = quoted (concat (map escapeChar (regexSource rx)));
          req = ''req.raw.regex:'' @ pat;
          resp = ''resp.raw.regex:'' @ pat
      in (case customHTTPQL opts of
            None \<Rightarrow> []
          | Some q \<Rightarrow> if q = [] then [] else q @ '' and '') @
         (if includeRequests opts \<and> includeResponses opts then ''('' @ req @ '' or '' @ resp @ '')''
          else if includeRequests opts then ''('' @ req @ '')''
          else if includeResponses opts then ''('' @ resp @ '')''
          else []) @
         '' and resp.len.lt:'' @
         (if skipLargeResponses opts then ''10485760'' else ''104857600'') @
         concat (map (\<lambda>ext. '' and req.ext.nlike:'' @ quoted ext) CLEANUP_EXTENSIONS))"

section \<open>The search service (services/grep.ts, the second file of src/unnamed/part_000)\<close>

subsection \<open>Records of the traffic store\<close>

text \<open>
  One item of a page: \<open>getId\<close> is \<^verbatim>\<open>item.request.getId()\<close>, \<open>idNumber\<close> is
  \<^verbatim>\<open>Number(item.request.getId())\<close>, \<open>requestRaw\<close> is
  \<^verbatim>\<open>request.getRaw()?.toText() || ""\<close>, \<open>responseRaw\<close> is \<open>None\<close> when
  \<^verbatim>\<open>item.response\<close> is \<^verbatim>\<open>undefined\<close> and the response's text otherwise, and
  \<open>inScope\<close> is \<^verbatim>\<open>sdk.requests.inScope(item.request)\<close>.
\<close>

record item =
  getId :: string
  idNumber :: nat
  requestRaw :: string
  responseRaw :: "string option"
  inScope :: bool

text \<open>The object pushed to \<^verbatim>\<open>contentMatches\<close> for one extracted match.\<close>

definition attribute :: "string \<Rightarrow> source_kind \<Rightarrow> ExtractedMatch \<Rightarrow> MatchResult" where
  "attribute rid src extracted =
     \<lparr>value = value extracted,
      startIndex = startIndex extracted,
      endIndex = endIndex extracted,
      requestId = rid,
      source = src\<rparr>"

text \<open>\<^verbatim>\<open>findMatchesInRequestResponse\<close> (lines 323-369).\<close>

definition findMatchesInRequestResponse ::
  "item \<Rightarrow> regex \<Rightarrow> nat list option \<Rightarrow> bool \<Rightarrow> bool \<Rightarrow> MatchResult list" where
  "findMatchesInRequestResponse it rx groups incReq incResp =
     (let rid = getId it;
          contentMatches =
            (if incReq
             then map (attribute rid request) (extractMatches (requestRaw it) rx groups)
             else [])
      in case responseRaw it of
           Some t \<Rightarrow>
             (if incResp
              then contentMatches @ map (attribute rid response) (extractMatches t rx groups)
              else contentMatches)
         | None \<Rightarrow> contentMatches)"


subsection \<open>What the platform provides\<close>

text \<open>
  The value a transform script returns: \<^verbatim>\<open>null\<close>, \<^verbatim>\<open>undefined\<close>, a string, or any
  other value, which is represented by what \<^verbatim>\<open>String(result)\<close> gives for it
  (\<open>None\<close> when that conversion throws).
\<close>

datatype jsval = JSNull | JSUndefined | JSString string | JSOther "string option"

text \<open>
  \<^verbatim>\<open>new Function("match", script)(value)\<close>: it throws (a syntax error of the
  script, or an exception while it runs) or returns a value.
\<close>

datatype script_result = ScriptThrew | ScriptReturned jsval

text \<open>
  \<open>runScript script value\<close> runs a script on a value; \<open>newRegExp pattern\<close> is
  \<^verbatim>\<open>new RegExp(pattern, "i")\<close>, with \<open>Inl\<close> the message of the error it throws;
  \<open>rnd\<close> is the rounding of the platform's number arithmetic, applied to the exact
  result of each division and multiplication.
\<close>

record platform =
  runScript :: "string \<Rightarrow> string \<Rightarrow> script_result"
  newRegExp :: "string \<Rightarrow> string + regex"
  rnd :: "real \<Rightarrow> real"

subsection \<open>applyTransform (lines 45-54)\<close>

definition applyTransform :: "platform \<Rightarrow> string \<Rightarrow> string \<Rightarrow> string option" where
  "applyTransform P v script =
     (case runScript P script v of
        ScriptThrew \<Rightarrow> Some v
      | ScriptReturned JSNull \<Rightarrow> None
      | ScriptReturned JSUndefined \<Rightarrow> None
      | ScriptReturned (JSString s) \<Rightarrow> Some s
      | ScriptReturned (JSOther (Some s)) \<Rightarrow> Some s
      | ScriptReturned (JSOther None) \<Rightarrow> Some v)"

subsection \<open>Strings\<close>

text \<open>The white space and line terminators \<^verbatim>\<open>trim\<close> removes, among the units below 256.\<close>

definition isWhiteSpace :: "char \<Rightarrow> bool" where
  "isWhiteSpace c = ((of_char c :: nat) \<in> set [9, 10, 11, 12, 13, 32, 160])"

definition trim :: "string \<Rightarrow> string" where
  "trim s = rev (dropWhile isWhiteSpace (rev (dropWhile isWhiteSpace s)))"

text \<open>\<^verbatim>\<open>/[^\x20-\x7E]/.test(s)\<close>\<close>

definition hasNonPrintable :: "string \<Rightarrow> bool" where
  "hasNonPrintable s = (\<exists>c \<in> set s. (of_char c :: nat) < 0x20 \<or> 0x7E < (of_char c :: nat))"

subsection \<open>State\<close>

text \<open>
  What \<^verbatim>\<open>sdk.api.send\<close> is called with: \<^verbatim>\<open>caidogrep:progress\<close> with a number,
  \<^verbatim>\<open>caidogrep:matches\<close> with an array or with a number.
\<close>

datatype event = Progress int | Matches "MatchResult list" | MatchesCount nat

text \<open>
  The module's variables (\<open>isGrepActive\<close>, \<open>stopResolve\<close> as "a resolver is
  registered", \<open>grepStore\<close>), the local variables of \<^verbatim>\<open>fetchAndProcessRequests\<close>
  (\<open>matches\<close>, \<open>hasNextPage\<close>, \<open>after\<close>, \<open>processedRequestID\<close>,
  \<open>sentMatchCount\<close>), and what the run has done to the outside: \<open>sent\<close> are the
  events sent so far, oldest first, and \<open>stopResolved\<close> says that the registered
  resolver has been called. \<open>rawMatchCount\<close> is an auxiliary counter that the source
  does not have: the number of MatchResults that \<^verbatim>\<open>findMatchesInRequestResponse\<close>
  has returned in the run; no other field depends on it.

  A \<^verbatim>\<open>Map\<close> is the list of its entries in insertion order.
\<close>

record run_state =
  isGrepActive :: bool
  stopResolve :: bool
  stopResolved :: bool
  grepStore :: "(string \<times> MatchResult) list"
  matches :: "(string \<times> MatchResult) list"
  hasNextPage :: bool
  after :: "string option"
  processedRequestID :: nat
  sentMatchCount :: nat
  sent :: "event list"
  rawMatchCount :: nat

text \<open>\<^verbatim>\<open>Map.has\<close>, \<^verbatim>\<open>Map.set\<close> and \<^verbatim>\<open>Array.from(map.values())\<close>.\<close>

definition mapHas :: "'k \<Rightarrow> ('k \<times> 'v) list \<Rightarrow> bool" where
  "mapHas k m = (k \<in> set (map fst m))"

fun mapSet :: "'k \<Rightarrow> 'v \<Rightarrow> ('k \<times> 'v) list \<Rightarrow> ('k \<times> 'v) list" where
  "mapSet k v [] = [(k, v)]"
| "mapSet k v (p # ps) = (if fst p = k then (k, v) # ps else p # mapSet k v ps)"

definition mapValues :: "('k \<times> 'v) list \<Rightarrow> 'v list" where
  "mapValues m = map snd m"

text \<open>\<^verbatim>\<open>grepStore.addMatch\<close> (lines 30-36), as the store it leaves.\<close>

definition addMatch :: "MatchResult \<Rightarrow> (string \<times> MatchResult) list \<Rightarrow> (string \<times> MatchResult) list" where
  "addMatch m store = (if \<not> mapHas (value m) store then mapSet (value m) m store else store)"

definition send :: "event \<Rightarrow> run_state \<Rightarrow> run_state" where
  "send ev st = st\<lparr>sent := sent st @ [ev]\<rparr>"

text \<open>\<^verbatim>\<open>if (stopResolve) { stopResolve(); }\<close>\<close>

definition callStopResolve :: "run_state \<Rightarrow> run_state" where
  "callStopResolve st = (if stopResolve st then st\<lparr>stopResolved := True\<rparr> else st)"

subsection \<open>The loop over the matches of one record (lines 266-295)\<close>

text \<open>\<^verbatim>\<open>maxResults && matches.size >= maxResults\<close>: \<^verbatim>\<open>null\<close> and \<open>0\<close> are falsy.\<close>

definition maxReached :: "GrepOptions \<Rightarrow> run_state \<Rightarrow> bool" where
  "maxReached opts st =
     (case maxResults opts of
        None \<Rightarrow> False
      | Some k \<Rightarrow> k \<noteq> 0 \<and> k \<le> length (matches st))"

text \<open>
  Lines 277-282: with a transform script (not \<^verbatim>\<open>null\<close>, not empty) the value is
  replaced by the trimmed result of the script; \<open>None\<close> is \<^verbatim>\<open>continue\<close>.
\<close>

definition transformStep :: "platform \<Rightarrow> GrepOptions \<Rightarrow> string \<Rightarrow> string option" where
  "transformStep P opts processedValue =
     (case transformScript opts of
        None \<Rightarrow> Some processedValue
      | Some script \<Rightarrow>
          if script = [] then Some processedValue
          else (case applyTransform P processedValue script of
                  None \<Rightarrow> None
                | Some transformed \<Rightarrow>
                    if length (trim transformed) = 0 then None else Some (trim transformed)))"

fun processMatches :: "platform \<Rightarrow> GrepOptions \<Rightarrow> MatchResult list \<Rightarrow> run_state \<Rightarrow> run_state" where
  "processMatches P opts [] st = st"
| "processMatches P opts (matchResult # rest) st =
     (if cleanupOutput opts \<and> hasNonPrintable (trim (value matchResult))
      then processMatches P opts rest st
      else if length (trim (value matchResult)) = 0
      then processMatches P opts rest st
      else case transformStep P opts (trim (value matchResult)) of
             None \<Rightarrow> processMatches P opts rest st
           | Some processedValue \<Rightarrow>
               if \<not> mapHas processedValue (matches st)
               then (let finalMatch = matchResult\<lparr>value := processedValue\<rparr>;
                         st' = st\<lparr>matches := mapSet processedValue finalMatch (matches st),
                                  grepStore := addMatch finalMatch (grepStore st)\<rparr>
                     in if maxReached opts st' then st' else processMatches P opts rest st')
               else processMatches P opts rest st)"

subsection \<open>The loop over the records of one page (lines 239-297)\<close>

text \<open>
  The first component is \<open>Some message\<close> when the loop throws. The auxiliary counter
  grows by the number of MatchResults each call of \<^verbatim>\<open>findMatchesInRequestResponse\<close>
  returns.
\<close>

fun processItems :: "platform \<Rightarrow> GrepOptions \<Rightarrow> regex \<Rightarrow> item list \<Rightarrow> run_state \<Rightarrow> string option \<times> run_state" where
  "processItems P opts rx [] st = (None, st)"
| "processItems P opts rx (it # rest) st =
     (if \<not> isGrepActive st
      then (Some ''Grep operation was stopped'', callStopResolve st)
      else if maxReached opts (st\<lparr>processedRequestID := idNumber it\<rparr>)
      then (None, st\<lparr>processedRequestID := idNumber it\<rparr>)
      else if onlyInScope opts \<and> \<not> inScope it
      then processItems P opts rx rest (st\<lparr>processedRequestID := idNumber it\<rparr>)
      else (let newMatches = findMatchesInRequestResponse it rx (matchGroups opts)
                               (includeRequests opts) (includeResponses opts)
            in processItems P opts rx rest
                 (processMatches P opts newMatches
                    (st\<lparr>processedRequestID := idNumber it,
                        rawMatchCount := rawMatchCount st + length newMatches\<rparr>))))"

subsection \<open>The emission at the end of a page (lines 299-308)\<close>

definition sendNewMatches :: "run_state \<Rightarrow> run_state" where
  "sendNewMatches st =
     (if length (matches st) > sentMatchCount st
      then (let newMatchResults = drop (sentMatchCount st) (mapValues (matches st))
            in (if sentMatchCount st > 25000
                then send (MatchesCount (length newMatchResults)) st
                else send (Matches newMatchResults) st)\<lparr>sentMatchCount := length (matches st)\<rparr>)
      else st)"

subsection \<open>The pagination loop (lines 208-315)\<close>

text \<open>\<^verbatim>\<open>result.items\<close> and \<^verbatim>\<open>result.pageInfo\<close> of one executed query.\<close>

record page =
  items :: "item list"
  pageHasNextPage :: bool
  endCursor :: string

text \<open>
  How the awaited query of one iteration ends: \<open>Stopped\<close> when a stop was requested
  while it was awaited (the flag is then inactive, a resolver is registered, and the
  iteration throws "Grep operation was stopped", from
  \<^verbatim>\<open>executeQueryWithCancellationCheck\<close> or from the check after it); \<open>Failed\<close> when
  the query rejects; \<open>Fetched\<close> with the page otherwise. The traffic store is given by
  the outcomes of the successive queries of a run.
\<close>

datatype fetch_outcome = Stopped | Failed string | Fetched page

text \<open>
  Lines 213-216, \<^verbatim>\<open>Math.min(Math.floor((processedRequestID / lastRequestId) * 100), 99)\<close>,
  in the platform's arithmetic: the two identifiers are integers that its numbers hold
  exactly, the quotient and the product are rounded, \<^verbatim>\<open>floor\<close> and \<^verbatim>\<open>min\<close> are
  exact.
\<close>

definition progress :: "(real \<Rightarrow> real) \<Rightarrow> nat \<Rightarrow> nat \<Rightarrow> int" where
  "progress r processedId lastId =
     min \<lfloor>r (r (real processedId / real lastId) * 100)\<rfloor> 99"


text \<open>The condition of the \<^verbatim>\<open>while\<close> (lines 208-212).\<close>

definition loopCondition :: "GrepOptions \<Rightarrow> run_state \<Rightarrow> bool" where
  "loopCondition opts st =
     (hasNextPage st \<and>
      (case maxResults opts of
         None \<Rightarrow> True
       | Some k \<Rightarrow> k = 0 \<or> length (matches st) < k) \<and>
      isGrepActive st)"

text \<open>Lines 311-314.\<close>

definition advancePage :: "page \<Rightarrow> run_state \<Rightarrow> run_state" where
  "advancePage pg st =
     (if pageHasNextPage pg
      then st\<lparr>hasNextPage := True, after := Some (endCursor pg)\<rparr>
      else st\<lparr>hasNextPage := False\<rparr>)"

text \<open>
  The loop consumes one outcome per iteration. \<open>None\<close> says that the loop has not
  ended when the given outcomes are used up; \<open>Some (Inl message, st)\<close> that it threw,
  \<open>Some (Inr n, st)\<close> that it returned \<^verbatim>\<open>matches.size\<close>.
\<close>

fun fetchLoop ::
  "platform \<Rightarrow> GrepOptions \<Rightarrow> regex \<Rightarrow> nat \<Rightarrow> fetch_outcome list \<Rightarrow> run_state
     \<Rightarrow> ((string + nat) \<times> run_state) option" where
  "fetchLoop P opts rx lastRequestId [] st =
     (if loopCondition opts st then None else Some (Inr (length (matches st)), st))"
| "fetchLoop P opts rx lastRequestId (outcome # script) st =
     (if loopCondition opts st
      then (let st1 = send (Progress (progress (rnd P) (processedRequestID st) lastRequestId)) st
            in case outcome of
                 Failed msg \<Rightarrow> Some (Inl msg, st1)
               | Stopped \<Rightarrow>
                   Some (Inl ''Grep operation was stopped'',
                         callStopResolve (st1\<lparr>isGrepActive := False, stopResolve := True\<rparr>))
               | Fetched pg \<Rightarrow>
                   (case processItems P opts rx (items pg) st1 of
                      (Some msg, st2) \<Rightarrow> Some (Inl msg, st2)
                    | (None, st2) \<Rightarrow>
                        fetchLoop P opts rx lastRequestId script
                          (advancePage pg (sendNewMatches st2))))
      else Some (Inr (length (matches st)), st))"

text \<open>\<^verbatim>\<open>fetchAndProcessRequests\<close> (lines 185-318): the local variables, then the loop.\<close>

definition fetchAndProcessRequests ::
  "platform \<Rightarrow> GrepOptions \<Rightarrow> regex \<Rightarrow> nat \<Rightarrow> fetch_outcome list \<Rightarrow> run_state
     \<Rightarrow> ((string + nat) \<times> run_state) option" where
  "fetchAndProcessRequests P opts rx lastRequestId script st =
     fetchLoop P opts rx lastRequestId script
       (st\<lparr>matches := [], hasNextPage := True, after := None,
           processedRequestID := 0, sentMatchCount := 0, rawMatchCount := 0\<rparr>)"

subsection \<open>executeGrepSearch and grepRequests (lines 60-89 and 139-180)\<close>

text \<open>
  What the host answers during one call: whether \<^verbatim>\<open>sdk.projects.getCurrent()\<close>
  gives a project, the first item of \<^verbatim>\<open>sdk.requests.query().last(1)\<close> if there is
  one, the outcomes of the page queries, and the milliseconds between the two readings
  of the clock.
\<close>

record host =
  currentProject :: bool
  lastRequest :: "item option"
  pages :: "fetch_outcome list"
  elapsed :: nat

text \<open>
  The object \<^verbatim>\<open>executeGrepSearch\<close> returns, \<^verbatim>\<open>{ matchesCount?, error? }\<close>; its
  \<^verbatim>\<open>error\<close> field is \<open>error'\<close> here. The object \<^verbatim>\<open>{ ...result, timeTaken }\<close>
  that \<^verbatim>\<open>grepRequests\<close> puts under \<^verbatim>\<open>data\<close>, and the envelope
  \<^verbatim>\<open>{ data?, error? }\<close> it returns.
\<close>

record search_result =
  matchesCount :: "nat option"
  error' :: "string option"

record grep_data = search_result +
  timeTaken :: nat

record envelope =
  data :: "grep_data option"
  error :: "string option"

text \<open>\<^verbatim>\<open>getLastRequestID\<close> (lines 374-380).\<close>

definition getLastRequestID :: "host \<Rightarrow> nat option" where
  "getLastRequestID h =
     (case lastRequest h of
        None \<Rightarrow> None
      | Some it \<Rightarrow> if getId it \<noteq> [] then Some (idNumber it) else None)"

text \<open>
  \<open>Inl message\<close> is a thrown error. \<^verbatim>\<open>if (!lastRequestId)\<close> holds for \<^verbatim>\<open>null\<close>
  and for \<open>0\<close>.
\<close>

definition executeGrepSearch ::
  "platform \<Rightarrow> host \<Rightarrow> string \<Rightarrow> GrepOptions \<Rightarrow> run_state
     \<Rightarrow> ((string + search_result) \<times> run_state) option" where
  "executeGrepSearch P h pattern opts st =
     (if \<not> currentProject h
      then Some (Inr \<lparr>matchesCount = None, error' = Some ''No project selected''\<rparr>, st)
      else case getLastRequestID h of
             None \<Rightarrow> Some (Inr \<lparr>matchesCount = None, error' = Some ''No requests found''\<rparr>, st)
           | Some lastRequestId \<Rightarrow>
               if lastRequestId = 0
               then Some (Inr \<lparr>matchesCount = None, error' = Some ''No requests found''\<rparr>, st)
               else (case newRegExp P pattern of
                       Inl msg \<Rightarrow> Some (Inl msg, st)
                     | Inr rx \<Rightarrow>
                         (case fetchAndProcessRequests P opts rx lastRequestId (pages h)
                                 (send (Progress 0) st) of
                            None \<Rightarrow> None
                          | Some (Inl msg, st') \<Rightarrow> Some (Inl msg, callStopResolve st')
                          | Some (Inr n, st') \<Rightarrow>
                              Some (Inr \<lparr>matchesCount = Some n, error' = None\<rparr>,
                                    callStopResolve st'))))"

text \<open>
  The \<^verbatim>\<open>try\<close>/\<^verbatim>\<open>catch\<close>/\<^verbatim>\<open>finally\<close> of \<^verbatim>\<open>grepRequests\<close>. The wait for a
  stop that is still pending (lines 73-75) changes no variable and is left out.
\<close>

definition grepRequests ::
  "platform \<Rightarrow> host \<Rightarrow> string \<Rightarrow> GrepOptions \<Rightarrow> run_state \<Rightarrow> (envelope \<times> run_state) option" where
  "grepRequests P h pattern opts st =
     (if isGrepActive st
      then Some (\<lparr>data = None, error = Some ''A grep scan is already running''\<rparr>, st)
      else (case executeGrepSearch P h pattern opts (st\<lparr>isGrepActive := True, grepStore := []\<rparr>) of
              None \<Rightarrow> None
            | Some (Inr result, st') \<Rightarrow>
                Some (\<lparr>data = Some \<lparr>matchesCount = matchesCount result, error' = error' result,
                                      timeTaken = elapsed h\<rparr>,
                       error = None\<rparr>,
                      st'\<lparr>isGrepActive := False\<rparr>)
            | Some (Inl msg, st') \<Rightarrow>
                Some (\<lparr>data = None, error = Some msg\<rparr>, st'\<lparr>isGrepActive := False\<rparr>)))"

section \<open>Notions used in the statements\<close>

text \<open>The insertion of lines 285-290, and the work on one record that is searched.\<close>

definition insertFinal :: "string \<Rightarrow> MatchResult \<Rightarrow> run_state \<Rightarrow> run_state" where
  "insertFinal pv m st =
     st\<lparr>matches := mapSet pv (m\<lparr>value := pv\<rparr>) (matches st),
        grepStore := addMatch (m\<lparr>value := pv\<rparr>) (grepStore st)\<rparr>"

definition itemStep :: "platform \<Rightarrow> GrepOptions \<Rightarrow> regex \<Rightarrow> item \<Rightarrow> run_state \<Rightarrow> run_state" where
  "itemStep P opts rx it st =
     processMatches P opts
       (findMatchesInRequestResponse it rx (matchGroups opts) (includeRequests opts) (includeResponses opts))
       (st\<lparr>processedRequestID := idNumber it,
           rawMatchCount := rawMatchCount st +
             length (findMatchesInRequestResponse it rx (matchGroups opts)
                       (includeRequests opts) (includeResponses opts))\<rparr>)"




definition isArray :: "event \<Rightarrow> bool" where
  "isArray ev = (case ev of Matches xs \<Rightarrow> True | _ \<Rightarrow> False)"


text \<open>
  The arrays of the \<^verbatim>\<open>caidogrep:matches\<close> events of a log, one after the other.
\<close>

fun arraysSent :: "event list \<Rightarrow> MatchResult list" where
  "arraysSent [] = []"
| "arraysSent (Matches xs # es) = xs @ arraysSent es"
| "arraysSent (e # es) = arraysSent es"

text \<open>
  The events of a run are those after the first \<open>b\<close> of the log. The arrays sent in
  the run make up an initial segment of the values of the map, in insertion order, so
  that no entry is sent in two arrays; the number sent covers them and is at most the
  size of the map; and up to 25000 everything counted as sent was sent in an array.
\<close>

definition sentInv :: "nat \<Rightarrow> run_state \<Rightarrow> bool" where
  "sentInv b st =
     (arraysSent (drop b (sent st)) =
        take (length (arraysSent (drop b (sent st)))) (mapValues (matches st)) \<and>
      length (arraysSent (drop b (sent st))) \<le> sentMatchCount st \<and>
      sentMatchCount st \<le> length (matches st) \<and>
      (sentMatchCount st \<le> 25000 \<longrightarrow> length (arraysSent (drop b (sent st))) = sentMatchCount st) \<and>
      b \<le> length (sent st))"

text \<open>An outcome after which the loop asks for no further page.\<close>

definition terminal :: "fetch_outcome \<Rightarrow> bool" where
  "terminal outcome = (case outcome of Fetched pg \<Rightarrow> \<not> pageHasNextPage pg | _ \<Rightarrow> True)"

section \<open>Concrete inputs\<close>

text \<open>
  What the engine returns for \<^verbatim>\<open>/Host: (x)?(.+)/\<close> on two request texts (group 1
  does not participate), for \<^verbatim>\<open>/x*/\<close> on \<^verbatim>\<open>a\<close> (an empty match at 0 and at 1),
  for \<^verbatim>\<open>/a(?=(b))/\<close> on \<^verbatim>\<open>ab\<close> and for \<^verbatim>\<open>/(?<=(abc))d/\<close> on \<^verbatim>\<open>abcd\<close> (a
  group captured in a lookahead or lookbehind lies outside the whole match).
\<close>

definition rx_host :: regex where
  "rx_host =
     \<lparr>regexSource = ''Host: (x)?(.+)'',
      matchAll = (\<lambda>t. if t = ''Host: a.io''
                       then [\<lparr>index = 0, whole = ''Host: a.io'', captures = [None, Some ''a.io'']\<rparr>]
                       else if t = ''Host: b.io''
                       then [\<lparr>index = 0, whole = ''Host: b.io'', captures = [None, Some ''b.io'']\<rparr>]
                       else [])\<rparr>"


definition rx_lookahead :: regex where
  "rx_lookahead =
     \<lparr>regexSource = ''a(?=(b))'',
      matchAll = (\<lambda>t. if t = ''ab''
                       then [\<lparr>index = 0, whole = ''a'', captures = [Some ''b'']\<rparr>]
                       else [])\<rparr>"



text \<open>
  A platform with exact arithmetic, a compiler that rejects the pattern \<^verbatim>\<open>(\<close>, and
  five scripts: four that return, and any other text, which throws.
\<close>

definition demoPlatform :: platform where
  "demoPlatform =
     \<lparr>runScript = (\<lambda>script v.
        if script = ''return null;'' then ScriptReturned JSNull
        else if script = ''return;'' then ScriptReturned JSUndefined
        else if script = ''return match.length;'' then ScriptReturned (JSOther (Some ''4''))
        else if script = ''return match;'' then ScriptReturned (JSString v)
        else ScriptThrew),
      newRegExp = (\<lambda>pattern. if pattern = ''('' then Inl ''Invalid regular expression'' else Inr rx_host),
      rnd = (\<lambda>x. x)\<rparr>"

definition demoOptions :: GrepOptions where
  "demoOptions =
     \<lparr>includeRequests = True, includeResponses = False, maxResults = None,
      matchGroups = Some [2], onlyInScope = False, skipLargeResponses = False,
      customHTTPQL = None, cleanupOutput = False, transformScript = None\<rparr>"

definition idleState :: run_state where
  "idleState =
     \<lparr>isGrepActive = False, stopResolve = False, stopResolved = False, grepStore = [],
      matches = [], hasNextPage = False, after = None, processedRequestID = 0,
      sentMatchCount = 0, sent = [], rawMatchCount = 0\<rparr>"

definition activeState :: run_state where
  "activeState = idleState\<lparr>isGrepActive := True\<rparr>"

definition demoItems :: "item list" where
  "demoItems =
     [\<lparr>getId = ''1'', idNumber = 1, requestRaw = ''Host: a.io'', responseRaw = None, inScope = True\<rparr>,
      \<lparr>getId = ''2'', idNumber = 2, requestRaw = ''Host: a.io'', responseRaw = None, inScope = True\<rparr>,
      \<lparr>getId = ''3'', idNumber = 3, requestRaw = ''Host: b.io'', responseRaw = None, inScope = True\<rparr>]"

definition demoHost :: host where
  "demoHost =
     \<lparr>currentProject = True,
      lastRequest = Some \<lparr>getId = ''3'', idNumber = 3, requestRaw = ''Host: b.io'', responseRaw = None, inScope = True\<rparr>,
      pages = [Fetched \<lparr>items = demoItems, pageHasNextPage = False, endCursor = []\<rparr>],
      elapsed = 5\<rparr>"

definition match_a1 :: MatchResult where
  "match_a1 = \<lparr>value = ''a.io'', startIndex = 6, endIndex = 10, requestId = ''1'', source = request\<rparr>"

definition match_a2 :: MatchResult where
  "match_a2 = \<lparr>value = '' a.io '', startIndex = 5, endIndex = 11, requestId = ''2'', source = request\<rparr>"

definition fullState :: run_state where
  "fullState = activeState\<lparr>matches := [(''a.io'', match_a1)], grepStore := [(''a.io'', match_a1)]\<rparr>"

text \<open>A run that has found 25002 values and has sent 25001 of them.\<close>

definition manyMatches :: "(string \<times> MatchResult) list" where
  "manyMatches =
     map (\<lambda>i. (replicate (Suc i) CHR ''a'',
               \<lparr>value = replicate (Suc i) CHR ''a'', startIndex = 0, endIndex = int (Suc i),
                requestId = ''1'', source = request\<rparr>))
       [0..<25002]"

definition lateState :: run_state where
  "lateState =
     activeState\<lparr>hasNextPage := True, matches := manyMatches, grepStore := manyMatches,
                 sentMatchCount := 25001\<rparr>"

definition emptyPage :: "fetch_outcome list" where
  "emptyPage = [Fetched \<lparr>items = [], pageHasNextPage = False, endCursor = []\<rparr>]"

section \<open>Properties of extractMatches\<close>

lemma extractLoop_map:
  "extractLoop groups ms results = results @ map (extractOne groups) ms"
  by (induction ms arbitrary: results) simp_all

lemma extractMatches_map:
  "extractMatches text rx groups =
     (if text = [] then [] else map (extractOne groups) (matchAll rx text))"
  by (simp add: extractMatches_def extractLoop_map Let_def)

lemma occursAt_bound: "occursAt s v j \<Longrightarrow> v \<noteq> [] \<Longrightarrow> j + length v \<le> length s"
proof -
  assume a: "occursAt s v j" and b: "v \<noteq> []"
  have "length (take (length v) (drop j s)) = length v" using a by (simp add: occursAt_def)
  then have "min (length v) (length s - j) = length v" by simp
  then have "length v \<le> length s - j" by linarith
  moreover have "0 < length v" using b by simp
  ultimately show ?thesis by linarith
qed

lemma occursAt_in_range: "occursAt s v j \<Longrightarrow> \<exists>i \<le> length s. occursAt s v i"
proof (cases "v = []")
  case True
  then show ?thesis by (auto simp: occursAt_def)
next
  case False
  assume "occursAt s v j"
  with False occursAt_bound[of s v j] show ?thesis by (intro exI[of _ j]) auto
qed

lemma find_upt_Some:
  "find P [0..<n] = Some j \<longleftrightarrow> j < n \<and> P j \<and> (\<forall>i<j. \<not> P i)"
  by (auto simp: find_Some_iff)

lemma find_upt_None: "find P [0..<n] = None \<longleftrightarrow> (\<forall>i<n. \<not> P i)"
  by (auto simp: find_None_iff)

lemma indexOf_first: "firstOccurrence s v j \<Longrightarrow> indexOf s v = int j"
proof -
  assume f: "firstOccurrence s v j"
  then have o: "occursAt s v j" and l: "\<forall>i<j. \<not> occursAt s v i"
    by (auto simp: firstOccurrence_def)
  from occursAt_in_range[OF o] obtain i where i: "i \<le> length s" "occursAt s v i" by blast
  with l have "j \<le> i" by (meson not_le)
  with i have "j < Suc (length s)" by simp
  with o l have "find (occursAt s v) [0..<Suc (length s)] = Some j"
    by (simp only: find_upt_Some)
  then show ?thesis by (simp add: indexOf_def del: upt_Suc)
qed


lemma indexOf_cases:
  "(indexOf s v = - 1 \<and> (\<forall>j. \<not> occursAt s v j)) \<or>
   (\<exists>j. indexOf s v = int j \<and> firstOccurrence s v j)"
proof (cases "find (occursAt s v) [0..<Suc (length s)]")
  case None
  then have "\<forall>i<Suc (length s). \<not> occursAt s v i" by (simp only: find_upt_None)
  then have "\<forall>j. \<not> occursAt s v j" using occursAt_in_range[of s v] by (metis less_Suc_eq_le)
  with None show ?thesis by (simp add: indexOf_def del: upt_Suc)
next
  case (Some j)
  then have "firstOccurrence s v j" by (simp only: find_upt_Some firstOccurrence_def) simp
  with Some show ?thesis by (auto simp: indexOf_def simp del: upt_Suc)
qed

lemma extractOne_cases:
  "extractOne groups m = wholeMatch m \<or> (\<exists>gs. scanGroups m gs = Some (extractOne groups m))"
  by (auto simp add: extractOne_def simp del: scanGroups.simps split: option.splits)

lemma extractOne_end: "endIndex (extractOne groups m) = startIndex (extractOne groups m) + int (length (value (extractOne groups m)))"
proof -
  have s: "\<And>gs e. scanGroups m gs = Some e \<Longrightarrow> endIndex e = startIndex e + int (length (value e))"
  proof -
    fix gs e show "scanGroups m gs = Some e \<Longrightarrow> endIndex e = startIndex e + int (length (value e))"
      by (induction gs) (auto simp: Let_def split: option.splits)
  qed
  show ?thesis
    using extractOne_cases[of groups m] by (auto simp: wholeMatch_def dest: s)
qed

lemma scanGroups_start:
  "scanGroups m gs = Some e \<Longrightarrow>
     \<exists>g. matchGroup m g = Some (value e) \<and>
         startIndex e = int (index m) + (if indexOf (whole m) (value e) \<ge> 0 then indexOf (whole m) (value e) else 0)"
  by (induction gs) (auto simp: Let_def split: option.splits)


lemma extractOne_start_occurs:
  assumes "occursAt (whole m) (value (extractOne groups m)) k"
  shows "\<exists>j. startIndex (extractOne groups m) = int (index m) + int j \<and>
             firstOccurrence (whole m) (value (extractOne groups m)) j"
proof -
  let ?e = "extractOne groups m"
  have w: "firstOccurrence (whole m) (whole m) 0"
    by (simp add: firstOccurrence_def occursAt_def)
  consider (W) "?e = wholeMatch m" | (G) gs where "scanGroups m gs = Some ?e"
    using extractOne_cases[of groups m] by auto
  then show ?thesis
  proof cases
    case W
    then show ?thesis using w by (intro exI[of _ 0]) (simp add: wholeMatch_def)
  next
    case G
    from scanGroups_start[OF G] have st: "startIndex ?e = int (index m) + (if indexOf (whole m) (value ?e) \<ge> 0 then indexOf (whole m) (value ?e) else 0)"
      by blast
    from indexOf_cases[of "whole m" "value ?e"] assms
    obtain j where j: "indexOf (whole m) (value ?e) = int j" "firstOccurrence (whole m) (value ?e) j"
      by blast
    with st show ?thesis by (intro exI[of _ j]) simp
  qed
qed

lemma slice_occurs:
  assumes m: "matchOf text m" and o: "occursAt (whole m) v j"
  shows "slice text (int (index m) + int j) (int (index m) + int j + int (length v)) = v
         \<and> (v \<noteq> [] \<longrightarrow> index m + j + length v \<le> length text)
         \<and> index m \<le> length text"
proof -
  have a: "take (length v) (drop j (whole m)) = v" using o by (simp add: occursAt_def)
  have b: "whole m = take (length (whole m)) (drop (index m) text)" using m by (simp add: matchOf_def)
  have c: "take (length v) (drop j (take (length (whole m)) (drop (index m) text))) = v"
    using a b by simp
  have lw: "index m + length (whole m) \<le> length text" using m by (simp add: matchOf_def)
  show ?thesis
  proof (cases "v = []")
    case True
    then show ?thesis using lw by (simp add: slice_def)
  next
    case False
    from occursAt_bound[OF o False] have jb: "j + length v \<le> length (whole m)" .
    then have "take (length v) (drop j (take (length (whole m)) xs)) = take (length v) (drop j xs)" for xs :: string
      by (simp add: drop_take min_def)
    with c have "take (length v) (drop j (drop (index m) text)) = v" by simp
    then have d: "take (length v) (drop (index m + j) text) = v" by (simp add: add.commute)
    have "slice text (int (index m) + int j) (int (index m) + int j + int (length v)) = take (length v) (drop (index m + j) text)"
      by (simp add: slice_def nat_add_distrib)
    moreover have "index m + j + length v \<le> length text"
      using lw jb by linarith
    ultimately show ?thesis using d lw by simp
  qed
qed





lemma indexOf_nonneg_occurs:
  "0 \<le> indexOf s v \<Longrightarrow> \<exists>j. occursAt s v j"
  using indexOf_cases[of s v] by (auto simp: firstOccurrence_def)

lemma extractOne_slice:
  assumes m: "matchOf text m" and o: "0 \<le> indexOf (whole m) (value (extractOne groups m))"
  shows "slice text (startIndex (extractOne groups m)) (endIndex (extractOne groups m)) = value (extractOne groups m)"
    and "endIndex (extractOne groups m) \<le> int (length text)"
proof -
  let ?e = "extractOne groups m"
  from indexOf_nonneg_occurs[OF o] obtain k where k: "occursAt (whole m) (value ?e) k" by blast
  from extractOne_start_occurs[OF k] obtain j where
    j: "startIndex ?e = int (index m) + int j" "firstOccurrence (whole m) (value ?e) j" by blast
  then have oj: "occursAt (whole m) (value ?e) j" by (simp add: firstOccurrence_def)
  note s = slice_occurs[OF m oj]
  have en: "endIndex ?e = int (index m) + int j + int (length (value ?e))"
    using extractOne_end[of groups m] j by simp
  show "slice text (startIndex ?e) (endIndex ?e) = value ?e"
    using s j en by simp
  show "endIndex ?e \<le> int (length text)"
  proof (cases "value ?e = []")
    case True
    have "occursAt (whole m) [] 0" by (simp add: occursAt_def)
    then have "firstOccurrence (whole m) [] 0" by (simp add: firstOccurrence_def)
    moreover have "firstOccurrence (whole m) [] j" using j True by simp
    ultimately have "j = 0" by (auto simp: firstOccurrence_def occursAt_def)
    moreover have "index m \<le> length text" using s by blast
    ultimately show ?thesis using en True by simp
  next
    case False
    with s have "index m + j + length (value ?e) \<le> length text" by blast
    then show ?thesis using en by linarith
  qed
qed

lemma attribute_fields [simp]:
  "value (attribute rid src e) = value e"
  "startIndex (attribute rid src e) = startIndex e"
  "endIndex (attribute rid src e) = endIndex e"
  "source (attribute rid src e) = src"
  "requestId (attribute rid src e) = rid"
  by (simp_all add: attribute_def)

lemma indexOf_self: "0 \<le> indexOf s s"
proof -
  have "firstOccurrence s s 0" by (simp add: firstOccurrence_def occursAt_def)
  from indexOf_first[OF this] show ?thesis by simp
qed

lemma extractOne_whole_path:
  "groups = None \<or> groups = Some [] \<Longrightarrow> extractOne groups m = wholeMatch m"
  by (auto simp: extractOne_def)

text \<open>
  The search for a group's text in the whole match can fail: for \<^verbatim>\<open>/a(?=(b))/\<close> on
  \<^verbatim>\<open>ab\<close> with the group list \<open>[1]\<close> the record has value \<^verbatim>\<open>b\<close> and the indices
  0 and 1, where the text holds \<^verbatim>\<open>a\<close>.
\<close>

theorem extractMatches_slice_counterexample:
  "matchOf ''ab'' \<lparr>index = 0, whole = ''a'', captures = [Some ''b'']\<rparr> \<and>
   matchAll rx_lookahead ''ab'' = [\<lparr>index = 0, whole = ''a'', captures = [Some ''b'']\<rparr>] \<and>
   extractMatches ''ab'' rx_lookahead (Some [1]) = [\<lparr>value = ''b'', startIndex = 0, endIndex = 1\<rparr>] \<and>
   slice ''ab'' 0 1 \<noteq> ''b''"
  by (simp add: matchOf_def rx_lookahead_def extractMatches_map extractOne_def matchGroup_def
      indexOf_def occursAt_def slice_def)

text \<open>
  Claim C10, as amended. Under the engine's guarantee for the matches of the text,
  every record of \<^verbatim>\<open>extractMatches\<close> ends \<open>length value\<close> after its start, and the
  slice of the text between its indices is its value whenever the search for the value
  in the whole match succeeds, which it always does without a group list.
\<close>

theorem extractMatches_slice:
  assumes "\<forall>m \<in> set (matchAll rx text). matchOf text m"
  shows "\<forall>i < length (extractMatches text rx groups).
           endIndex (extractMatches text rx groups ! i) =
             startIndex (extractMatches text rx groups ! i) +
             int (length (value (extractMatches text rx groups ! i))) \<and>
           (0 \<le> indexOf (whole (matchAll rx text ! i)) (value (extractMatches text rx groups ! i)) \<longrightarrow>
              slice text (startIndex (extractMatches text rx groups ! i))
                         (endIndex (extractMatches text rx groups ! i)) =
                value (extractMatches text rx groups ! i)) \<and>
           (groups = None \<or> groups = Some [] \<longrightarrow>
              slice text (startIndex (extractMatches text rx groups ! i))
                         (endIndex (extractMatches text rx groups ! i)) =
                value (extractMatches text rx groups ! i))"
proof (intro allI impI)
  fix i assume i: "i < length (extractMatches text rx groups)"
  let ?m = "matchAll rx text ! i"
  from i have t: "text \<noteq> []" and i': "i < length (matchAll rx text)"
    by (auto simp: extractMatches_map split: if_splits)
  then have e: "extractMatches text rx groups ! i = extractOne groups ?m"
    by (simp add: extractMatches_map)
  from assms i' have m: "matchOf text ?m" by simp
  have w: "slice text (startIndex (extractOne groups ?m)) (endIndex (extractOne groups ?m)) =
             value (extractOne groups ?m)" if "groups = None \<or> groups = Some []"
  proof -
    have "extractOne groups ?m = wholeMatch ?m" using that by (rule extractOne_whole_path)
    then have "0 \<le> indexOf (whole ?m) (value (extractOne groups ?m))"
      using indexOf_self[of "whole ?m"] by (simp add: wholeMatch_def)
    from extractOne_slice(1)[OF m this] show ?thesis .
  qed
  show "endIndex (extractMatches text rx groups ! i) =
             startIndex (extractMatches text rx groups ! i) +
             int (length (value (extractMatches text rx groups ! i))) \<and>
           (0 \<le> indexOf (whole ?m) (value (extractMatches text rx groups ! i)) \<longrightarrow>
              slice text (startIndex (extractMatches text rx groups ! i))
                         (endIndex (extractMatches text rx groups ! i)) =
                value (extractMatches text rx groups ! i)) \<and>
           (groups = None \<or> groups = Some [] \<longrightarrow>
              slice text (startIndex (extractMatches text rx groups ! i))
                         (endIndex (extractMatches text rx groups ! i)) =
                value (extractMatches text rx groups ! i))"
    unfolding e using extractOne_end[of groups ?m] extractOne_slice(1)[OF m, of groups] w
    by blast
qed

theorem extractMatches_slice_witness:
  "list_all (matchOf ''Host: a.io'') (matchAll rx_host ''Host: a.io'') \<and>
   0 < length (extractMatches ''Host: a.io'' rx_host (Some [2])) \<and>
   0 \<le> indexOf (whole (matchAll rx_host ''Host: a.io'' ! 0))
               (value (extractMatches ''Host: a.io'' rx_host (Some [2]) ! 0)) \<and>
   extractMatches ''Host: a.io'' rx_host (Some [2]) ! 0 =
     \<lparr>value = ''a.io'', startIndex = 6, endIndex = 10\<rparr> \<and>
   slice ''Host: a.io'' 6 10 = ''a.io''"
proof -
  have c: "\<forall>m \<in> set (matchAll rx_host ''Host: a.io''). matchOf ''Host: a.io'' m"
    by (simp add: rx_host_def matchOf_def)
  have e: "extractMatches ''Host: a.io'' rx_host (Some [2]) =
             [\<lparr>value = ''a.io'', startIndex = 6, endIndex = 10\<rparr>]"
    by code_simp
  have l: "0 < length (extractMatches ''Host: a.io'' rx_host (Some [2]))"
    by (simp add: e)
  have o: "0 \<le> indexOf (whole (matchAll rx_host ''Host: a.io'' ! 0))
               (value (extractMatches ''Host: a.io'' rx_host (Some [2]) ! 0))"
    by code_simp
  note T = extractMatches_slice[OF c, of "Some [2]", rule_format, OF l]
  have "slice ''Host: a.io'' 6 10 = ''a.io''"
    using T[THEN conjunct2, THEN conjunct1, rule_format, OF o] by (simp add: e)
  then show ?thesis using c l o by (simp add: e list_all_iff)
qed





section \<open>Properties of applyTransform\<close>

lemma dropWhile_trim: "dropWhile isWhiteSpace (trim s) = trim s"
proof (cases "trim s")
  case Nil
  then show ?thesis by simp
next
  case (Cons x xs)
  let ?a = "dropWhile isWhiteSpace s"
  let ?b = "dropWhile isWhiteSpace (rev ?a)"
  have t: "trim s = rev ?b" by (simp add: trim_def)
  have "rev (takeWhile isWhiteSpace (rev ?a) @ ?b) = rev (rev ?a)"
    by (simp only: takeWhile_dropWhile_id)
  then have "rev ?b @ rev (takeWhile isWhiteSpace (rev ?a)) = ?a"
    by (simp only: rev_append rev_rev_ident)
  then have a: "?a = rev ?b @ rev (takeWhile isWhiteSpace (rev ?a))" by (rule sym)
  from Cons t have rb: "rev ?b = x # xs" by simp
  with a have a': "?a = x # (xs @ rev (takeWhile isWhiteSpace (rev ?a)))" by simp
  from a' have ne: "?a \<noteq> []" by (metis list.discI)
  from a' have "hd ?a = x" by (metis list.sel(1))
  with hd_dropWhile[OF ne] have "\<not> isWhiteSpace x" by simp
  then show ?thesis using Cons by simp
qed

lemma trim_idem: "trim (trim s) = trim s"
proof -
  have "trim (trim s) = rev (dropWhile isWhiteSpace (rev (dropWhile isWhiteSpace (trim s))))"
    by (simp add: trim_def)
  also have "\<dots> = rev (dropWhile isWhiteSpace (rev (trim s)))" by (simp only: dropWhile_trim)
  also have "\<dots> = trim s" by (simp add: trim_def)
  finally show ?thesis .
qed

text \<open>
  Claim C7. \<^verbatim>\<open>applyTransform\<close> returns \<^verbatim>\<open>null\<close> exactly when the script returns
  \<^verbatim>\<open>null\<close> or \<^verbatim>\<open>undefined\<close>; a string is returned as it is and any other value as
  its string form; when the script throws (or the conversion to a string does), the
  value is returned unchanged. A match whose script throws is then processed exactly as
  it is without a transform script: it is not discarded, and the run goes on.
\<close>

theorem applyTransform_fails_open:
  "(applyTransform P v script = None \<longleftrightarrow>
      runScript P script v = ScriptReturned JSNull \<or>
      runScript P script v = ScriptReturned JSUndefined) \<and>
   (runScript P script v = ScriptReturned (JSString s) \<longrightarrow> applyTransform P v script = Some s) \<and>
   (runScript P script v = ScriptReturned (JSOther (Some s)) \<longrightarrow> applyTransform P v script = Some s) \<and>
   (runScript P script v = ScriptThrew \<longrightarrow> applyTransform P v script = Some v) \<and>
   (runScript P script v = ScriptReturned (JSOther None) \<longrightarrow> applyTransform P v script = Some v) \<and>
   (transformScript opts = Some script \<longrightarrow> runScript P script (trim (value m)) = ScriptThrew \<longrightarrow>
      processMatches P opts [m] st =
      processMatches P (opts\<lparr>transformScript := None\<rparr>) [m] st)"
proof (intro conjI impI)
  show "applyTransform P v script = None \<longleftrightarrow>
      runScript P script v = ScriptReturned JSNull \<or>
      runScript P script v = ScriptReturned JSUndefined"
    by (auto simp: applyTransform_def split: script_result.splits jsval.splits option.splits)
  show "runScript P script v = ScriptReturned (JSString s) \<Longrightarrow> applyTransform P v script = Some s"
    by (simp add: applyTransform_def)
  show "runScript P script v = ScriptReturned (JSOther (Some s)) \<Longrightarrow> applyTransform P v script = Some s"
    by (simp add: applyTransform_def)
  show "runScript P script v = ScriptThrew \<Longrightarrow> applyTransform P v script = Some v"
    by (simp add: applyTransform_def)
  show "runScript P script v = ScriptReturned (JSOther None) \<Longrightarrow> applyTransform P v script = Some v"
    by (simp add: applyTransform_def)
next
  assume s: "transformScript opts = Some script"
    and th: "runScript P script (trim (value m)) = ScriptThrew"
  define x where "x = value m"
  have a: "applyTransform P (trim x) script = Some (trim x)"
    using th by (simp add: applyTransform_def x_def)
  have m: "maxReached (opts\<lparr>transformScript := None\<rparr>) s' = maxReached opts s'" for s'
    by (simp add: maxReached_def)
  have t: "trim x \<noteq> [] \<Longrightarrow> transformStep P opts (trim x) = Some (trim x)"
    using s a by (simp add: transformStep_def trim_idem)
  have t': "transformStep P (opts\<lparr>transformScript := None\<rparr>) (trim x) = Some (trim x)"
    by (simp add: transformStep_def)
  show "processMatches P opts [m] st =
        processMatches P (opts\<lparr>transformScript := None\<rparr>) [m] st"
    using t t' by (simp add: m Let_def x_def)
qed

section \<open>Properties of buildRegexFilter\<close>

lemma foldl_append_terms:
  "foldl (\<lambda>acc x. acc @ f x) a xs = a @ concat (map f xs)"
  by (induction xs arbitrary: a) simp_all

lemma escape_two_pass:
  "replaceAll dquote [backslash, dquote] (replaceAll backslash [backslash, backslash] s) =
     concat (map escapeChar s)"
  by (induction s) (simp_all add: replaceAll_def escapeChar_def backslash_def dquote_def)

text \<open>
  Claim C9. \<^verbatim>\<open>buildRegexFilter\<close> computes the chain of \<open>filter_spec\<close>: the custom
  expression first when present, the parenthesised \<open>or\<close> of the request and response
  terms gated by the two flags (empty when neither is set), the pattern source with
  backslashes and double quotes escaped and nothing else changed, the size bound
  \<^verbatim>\<open>resp.len.lt:10485760\<close> or \<^verbatim>\<open>resp.len.lt:104857600\<close>, and the exclusion terms of
  the extensions.
\<close>

theorem buildRegexFilter_and_chain:
  "buildRegexFilter rx opts = filter_spec rx opts"
proof -
  have f: "foldl (\<lambda>regexFilter ext. regexFilter @ '' and req.ext.nlike:'' @ [dquote] @ ext @ [dquote]) a xs =
           a @ concat (map (\<lambda>ext. '' and req.ext.nlike:'' @ quoted ext) xs)" for a xs
    using foldl_append_terms[of "\<lambda>ext. '' and req.ext.nlike:'' @ quoted ext" a xs]
    by (simp add: quoted_def)
  show ?thesis
    unfolding buildRegexFilter_def filter_spec_def Let_def f escape_two_pass
    by (simp add: quoted_def split: option.splits)
qed

section \<open>The loops of the search\<close>

lemma mapSet_absent: "\<not> mapHas k m \<Longrightarrow> mapSet k v m = m @ [(k, v)]"
  by (induction m) (auto simp: mapHas_def)

lemma processMatches_Cons:
  "processMatches P opts (m # rest) st =
     (if cleanupOutput opts \<and> hasNonPrintable (trim (value m)) then processMatches P opts rest st
      else if trim (value m) = [] then processMatches P opts rest st
      else case transformStep P opts (trim (value m)) of
             None \<Rightarrow> processMatches P opts rest st
           | Some pv \<Rightarrow>
               if mapHas pv (matches st) then processMatches P opts rest st
               else if maxReached opts (insertFinal pv m st) then insertFinal pv m st
               else processMatches P opts rest (insertFinal pv m st))"
  by (simp add: Let_def insertFinal_def split: option.splits)

lemma insertFinal_fields [simp]:
  "isGrepActive (insertFinal pv m st) = isGrepActive st"
  "stopResolve (insertFinal pv m st) = stopResolve st"
  "stopResolved (insertFinal pv m st) = stopResolved st"
  "hasNextPage (insertFinal pv m st) = hasNextPage st"
  "after (insertFinal pv m st) = after st"
  "processedRequestID (insertFinal pv m st) = processedRequestID st"
  "sentMatchCount (insertFinal pv m st) = sentMatchCount st"
  "sent (insertFinal pv m st) = sent st"
  "rawMatchCount (insertFinal pv m st) = rawMatchCount st"
  by (simp_all add: insertFinal_def)

lemma insertFinal_matches:
  "\<not> mapHas pv (matches st) \<Longrightarrow>
   matches (insertFinal pv m st) = matches st @ [(pv, m\<lparr>value := pv\<rparr>)]"
  by (simp add: insertFinal_def mapSet_absent)



lemma processMatches_frame:
  "isGrepActive (processMatches P opts ms st) = isGrepActive st \<and>
   stopResolve (processMatches P opts ms st) = stopResolve st \<and>
   stopResolved (processMatches P opts ms st) = stopResolved st \<and>
   hasNextPage (processMatches P opts ms st) = hasNextPage st \<and>
   after (processMatches P opts ms st) = after st \<and>
   processedRequestID (processMatches P opts ms st) = processedRequestID st \<and>
   sentMatchCount (processMatches P opts ms st) = sentMatchCount st \<and>
   sent (processMatches P opts ms st) = sent st \<and>
   rawMatchCount (processMatches P opts ms st) = rawMatchCount st"
proof (induction ms arbitrary: st)
  case Nil
  then show ?case by simp
next
  case (Cons m ms)
  show ?case
    unfolding processMatches_Cons
    using Cons.IH[of st] Cons.IH[of "insertFinal pv m st" for pv]
    by (auto split: option.splits)
qed

lemma processMatches_grows:
  "\<exists>ext. matches (processMatches P opts ms st) = matches st @ ext \<and> length ext \<le> length ms"
proof (induction ms arbitrary: st)
  case Nil
  then show ?case by simp
next
  case (Cons m ms)
  have ins: "\<exists>ext. matches (processMatches P opts ms (insertFinal pv m st)) = matches st @ ext \<and>
                   length ext \<le> Suc (length ms)"
    if "\<not> mapHas pv (matches st)" for pv
  proof -
    from Cons.IH[of "insertFinal pv m st"] obtain ext where
      "matches (processMatches P opts ms (insertFinal pv m st)) = matches (insertFinal pv m st) @ ext"
      "length ext \<le> length ms" by blast
    then show ?thesis using insertFinal_matches[OF that, of m]
      by (intro exI[of _ "(pv, m\<lparr>value := pv\<rparr>) # ext"]) simp
  qed
  have one: "\<exists>ext. matches (insertFinal pv m st) = matches st @ ext \<and> length ext \<le> Suc (length ms)"
    if "\<not> mapHas pv (matches st)" for pv
    using insertFinal_matches[OF that, of m] by simp
  from Cons.IH[of st] have same: "\<exists>ext. matches (processMatches P opts ms st) = matches st @ ext \<and>
      length ext \<le> Suc (length ms)" by (metis le_Suc_eq)
  show ?case
    unfolding processMatches_Cons using ins one same
    by (auto split: option.splits)
qed

lemma processMatches_max:
  assumes "maxResults opts = Some k" and "0 < k" and "length (matches st) < k"
  shows "length (matches (processMatches P opts ms st)) \<le> k"
  using assms(3)
proof (induction ms arbitrary: st)
  case Nil
  then show ?case by simp
next
  case (Cons m ms)
  have len: "length (matches (insertFinal pv m st)) = Suc (length (matches st))"
    if "\<not> mapHas pv (matches st)" for pv
    using insertFinal_matches[OF that, of m] by simp
  have r: "maxReached opts s = (k \<le> length (matches s))" for s
    using assms(1,2) by (simp add: maxReached_def)
  show ?case
    unfolding processMatches_Cons r
    using Cons.IH[of st] Cons.IH[of "insertFinal pv m st" for pv] Cons.prems len
    by (auto split: option.splits)
qed

lemma callStopResolve_fields [simp]:
  "isGrepActive (callStopResolve st) = isGrepActive st"
  "grepStore (callStopResolve st) = grepStore st"
  "matches (callStopResolve st) = matches st"
  "hasNextPage (callStopResolve st) = hasNextPage st"
  "after (callStopResolve st) = after st"
  "processedRequestID (callStopResolve st) = processedRequestID st"
  "sentMatchCount (callStopResolve st) = sentMatchCount st"
  "sent (callStopResolve st) = sent st"
  "rawMatchCount (callStopResolve st) = rawMatchCount st"
  by (simp_all add: callStopResolve_def)

lemma send_fields [simp]:
  "isGrepActive (send ev st) = isGrepActive st"
  "grepStore (send ev st) = grepStore st"
  "matches (send ev st) = matches st"
  "hasNextPage (send ev st) = hasNextPage st"
  "after (send ev st) = after st"
  "processedRequestID (send ev st) = processedRequestID st"
  "sentMatchCount (send ev st) = sentMatchCount st"
  "sent (send ev st) = sent st @ [ev]"
  "rawMatchCount (send ev st) = rawMatchCount st"
  by (simp_all add: send_def)

lemma maxReached_processedRequestID [simp]:
  "maxReached opts (st\<lparr>processedRequestID := n\<rparr>) = maxReached opts st"
  by (simp add: maxReached_def split: option.splits)

lemma processItems_Cons:
  "processItems P opts rx (it # rest) st =
     (if \<not> isGrepActive st then (Some ''Grep operation was stopped'', callStopResolve st)
      else if maxReached opts st then (None, st\<lparr>processedRequestID := idNumber it\<rparr>)
      else if onlyInScope opts \<and> \<not> inScope it
      then processItems P opts rx rest (st\<lparr>processedRequestID := idNumber it\<rparr>)
      else processItems P opts rx rest (itemStep P opts rx it st))"
  by (simp add: Let_def itemStep_def)


lemma itemStep_frame:
  "isGrepActive (itemStep P opts rx it st) = isGrepActive st \<and>
   hasNextPage (itemStep P opts rx it st) = hasNextPage st \<and>
   after (itemStep P opts rx it st) = after st \<and>
   sentMatchCount (itemStep P opts rx it st) = sentMatchCount st \<and>
   sent (itemStep P opts rx it st) = sent st"
  unfolding itemStep_def using processMatches_frame by simp

lemma itemStep_count:
  "\<exists>ext. matches (itemStep P opts rx it st) = matches st @ ext \<and>
         rawMatchCount (itemStep P opts rx it st) = rawMatchCount st +
           length (findMatchesInRequestResponse it rx (matchGroups opts)
                     (includeRequests opts) (includeResponses opts)) \<and>
         length ext \<le> length (findMatchesInRequestResponse it rx (matchGroups opts)
                     (includeRequests opts) (includeResponses opts))"
proof -
  let ?ms = "findMatchesInRequestResponse it rx (matchGroups opts) (includeRequests opts) (includeResponses opts)"
  let ?s = "st\<lparr>processedRequestID := idNumber it, rawMatchCount := rawMatchCount st + length ?ms\<rparr>"
  from processMatches_grows[of P opts ?ms ?s] obtain ext where
    "matches (processMatches P opts ?ms ?s) = matches ?s @ ext" "length ext \<le> length ?ms" by blast
  moreover have "rawMatchCount (processMatches P opts ?ms ?s) = rawMatchCount ?s"
    using processMatches_frame by blast
  ultimately show ?thesis unfolding itemStep_def by (intro exI[of _ ext]) simp
qed

lemma itemStep_max:
  assumes "maxResults opts = Some k" and "0 < k" and "length (matches st) < k"
  shows "length (matches (itemStep P opts rx it st)) \<le> k"
  unfolding itemStep_def using assms by (intro processMatches_max) simp_all



lemma processItems_frame:
  "isGrepActive (snd (processItems P opts rx its st)) = isGrepActive st \<and>
   hasNextPage (snd (processItems P opts rx its st)) = hasNextPage st \<and>
   after (snd (processItems P opts rx its st)) = after st \<and>
   sentMatchCount (snd (processItems P opts rx its st)) = sentMatchCount st \<and>
   sent (snd (processItems P opts rx its st)) = sent st"
proof (induction its arbitrary: st)
  case Nil
  then show ?case by simp
next
  case (Cons it its)
  show ?case
    unfolding processItems_Cons
    using Cons.IH[of "st\<lparr>processedRequestID := idNumber it\<rparr>"]
      Cons.IH[of "itemStep P opts rx it st"] itemStep_frame[of P opts rx it st]
    by auto
qed

lemma processItems_grows:
  "\<exists>ext. matches (snd (processItems P opts rx its st)) = matches st @ ext"
proof (induction its arbitrary: st)
  case Nil
  then show ?case by simp
next
  case (Cons it its)
  from itemStep_count[of P opts rx it st] obtain e1 where
    e1: "matches (itemStep P opts rx it st) = matches st @ e1" by blast
  from Cons.IH[of "itemStep P opts rx it st"] obtain e2 where
    "matches (snd (processItems P opts rx its (itemStep P opts rx it st))) =
       matches (itemStep P opts rx it st) @ e2" by blast
  with e1 have c: "\<exists>ext. matches (snd (processItems P opts rx its (itemStep P opts rx it st))) =
       matches st @ ext" by simp
  show ?case
    unfolding processItems_Cons
    using Cons.IH[of "st\<lparr>processedRequestID := idNumber it\<rparr>"] c
    by auto
qed

lemma processItems_max:
  assumes "maxResults opts = Some k" and "0 < k"
  shows "length (matches st) \<le> k \<Longrightarrow> length (matches (snd (processItems P opts rx its st))) \<le> k"
proof (induction its arbitrary: st)
  case Nil
  then show ?case by simp
next
  case (Cons it its)
  have r: "maxReached opts s = (k \<le> length (matches s))" for s
    using assms by (simp add: maxReached_def)
  have i: "length (matches (itemStep P opts rx it st)) \<le> k" if "length (matches st) < k"
    using itemStep_max[OF assms that] .
  show ?case
    unfolding processItems_Cons r
    using Cons.prems Cons.IH[of "st\<lparr>processedRequestID := idNumber it\<rparr>"]
      Cons.IH[of "itemStep P opts rx it st"] i
    by auto
qed

lemma processItems_at_max:
  assumes "maxResults opts = Some k" and "0 < k" and "k \<le> length (matches st)"
  shows "matches (snd (processItems P opts rx its st)) = matches st \<and>
         grepStore (snd (processItems P opts rx its st)) = grepStore st"
proof (cases its)
  case Nil
  then show ?thesis by simp
next
  case (Cons it rest)
  have "maxReached opts st" using assms by (simp add: maxReached_def)
  then show ?thesis unfolding Cons processItems_Cons by simp
qed

lemma sendNewMatches_fields [simp]:
  "isGrepActive (sendNewMatches st) = isGrepActive st"
  "grepStore (sendNewMatches st) = grepStore st"
  "matches (sendNewMatches st) = matches st"
  "hasNextPage (sendNewMatches st) = hasNextPage st"
  "after (sendNewMatches st) = after st"
  "processedRequestID (sendNewMatches st) = processedRequestID st"
  "rawMatchCount (sendNewMatches st) = rawMatchCount st"
  by (simp_all add: sendNewMatches_def Let_def)

lemma advancePage_fields [simp]:
  "isGrepActive (advancePage pg st) = isGrepActive st"
  "grepStore (advancePage pg st) = grepStore st"
  "matches (advancePage pg st) = matches st"
  "hasNextPage (advancePage pg st) = pageHasNextPage pg"
  "processedRequestID (advancePage pg st) = processedRequestID st"
  "sentMatchCount (advancePage pg st) = sentMatchCount st"
  "sent (advancePage pg st) = sent st"
  "rawMatchCount (advancePage pg st) = rawMatchCount st"
  by (simp_all add: advancePage_def)


lemma fetchLoop_Cons:
  "fetchLoop P opts rx lastId (outcome # script) st =
     (if \<not> loopCondition opts st then Some (Inr (length (matches st)), st)
      else case outcome of
             Failed msg \<Rightarrow>
               Some (Inl msg, send (Progress (progress (rnd P) (processedRequestID st) lastId)) st)
           | Stopped \<Rightarrow>
               Some (Inl ''Grep operation was stopped'',
                     callStopResolve
                       ((send (Progress (progress (rnd P) (processedRequestID st) lastId)) st)
                          \<lparr>isGrepActive := False, stopResolve := True\<rparr>))
           | Fetched pg \<Rightarrow>
               (case fst (processItems P opts rx (items pg)
                            (send (Progress (progress (rnd P) (processedRequestID st) lastId)) st)) of
                  Some msg \<Rightarrow>
                    Some (Inl msg,
                          snd (processItems P opts rx (items pg)
                                 (send (Progress (progress (rnd P) (processedRequestID st) lastId)) st)))
                | None \<Rightarrow>
                    fetchLoop P opts rx lastId script
                      (advancePage pg (sendNewMatches
                         (snd (processItems P opts rx (items pg)
                                 (send (Progress (progress (rnd P) (processedRequestID st) lastId)) st)))))))"
  by (simp add: Let_def split: fetch_outcome.splits prod.splits option.splits)


lemma fetchLoop_result_count:
  "fetchLoop P opts rx lastId script st = Some (Inr n, st') \<Longrightarrow> n = length (matches st')"
proof (induction script arbitrary: st)
  case Nil
  then show ?case by (auto split: if_splits)
next
  case (Cons outcome script)
  show ?case
    using Cons.prems Cons.IH
    unfolding fetchLoop_Cons
    by (auto split: if_splits fetch_outcome.splits option.splits)
qed

lemma fetchLoop_max:
  assumes "maxResults opts = Some k" and "0 < k"
  shows "length (matches st) \<le> k \<Longrightarrow> fetchLoop P opts rx lastId script st = Some (res, st') \<Longrightarrow>
         length (matches st') \<le> k"
proof (induction script arbitrary: st)
  case Nil
  then show ?case by (auto split: if_splits)
next
  case (Cons outcome script)
  let ?s1 = "send (Progress (progress (rnd P) (processedRequestID st) lastId)) st"
  have c3: "length (matches (snd (processItems P opts rx its ?s1))) \<le> k" for its
    using processItems_max[OF assms, of ?s1] Cons.prems(1) by simp
  have c4: "length (matches (advancePage pg (sendNewMatches (snd (processItems P opts rx its ?s1))))) \<le> k" for pg its
    using c3[of its] by simp
  show ?case
    using Cons.prems c3 Cons.IH[OF c4]
    unfolding fetchLoop_Cons
    by (auto split: if_splits fetch_outcome.splits option.splits)
qed

lemma fetchLoop_returns:
  "\<exists>outcome \<in> set script. terminal outcome \<Longrightarrow> fetchLoop P opts rx lastId script st \<noteq> None"
proof (induction script arbitrary: st)
  case Nil
  then show ?case by simp
next
  case (Cons outcome script)
  have stop: "fetchLoop P opts rx lastId script s \<noteq> None" if "\<not> hasNextPage s" for s
    using that by (cases script) (simp_all add: loopCondition_def)
  show ?case
  proof (cases "terminal outcome")
    case True
    then show ?thesis
      unfolding fetchLoop_Cons using stop
      by (auto simp: terminal_def split: fetch_outcome.splits option.splits)
  next
    case False
    with Cons.prems have "\<exists>outcome \<in> set script. terminal outcome" by auto
    from Cons.IH[OF this] show ?thesis
      unfolding fetchLoop_Cons
      by (auto split: fetch_outcome.splits option.splits)
  qed
qed



lemma sendNewMatches_cases:
  "(length (matches st) \<le> sentMatchCount st \<longrightarrow> sendNewMatches st = st) \<and>
   (sentMatchCount st < length (matches st) \<longrightarrow> sentMatchCount st \<le> 25000 \<longrightarrow>
      sendNewMatches st =
        st\<lparr>sent := sent st @ [Matches (drop (sentMatchCount st) (mapValues (matches st)))],
           sentMatchCount := length (matches st)\<rparr>) \<and>
   (sentMatchCount st < length (matches st) \<longrightarrow> 25000 < sentMatchCount st \<longrightarrow>
      sendNewMatches st =
        st\<lparr>sent := sent st @ [MatchesCount (length (matches st) - sentMatchCount st)],
           sentMatchCount := length (matches st)\<rparr>)"
  by (simp add: sendNewMatches_def send_def Let_def mapValues_def)

lemma sendNewMatches_events:
  assumes "\<And>xs. Q (Matches xs)" and "\<And>n. Q (MatchesCount n)"
  shows "\<exists>new. sent (sendNewMatches st) = sent st @ new \<and>
         sentMatchCount st \<le> sentMatchCount (sendNewMatches st) \<and>
         list_all Q new \<and>
         (25000 < sentMatchCount st \<longrightarrow> list_all (\<lambda>e. \<not> isArray e) new)"
  using assms by (simp add: sendNewMatches_def send_def Let_def isArray_def)

lemma fetchLoop_events:
  assumes qp: "\<And>p l. Q (Progress (progress (rnd P) p l))"
    and qm: "\<And>xs. Q (Matches xs)" and qc: "\<And>n. Q (MatchesCount n)"
  shows "fetchLoop P opts rx lastId script st = Some (res, st') \<Longrightarrow>
         \<exists>new. sent st' = sent st @ new \<and> sentMatchCount st \<le> sentMatchCount st' \<and>
               list_all Q new \<and>
               (25000 < sentMatchCount st \<longrightarrow> list_all (\<lambda>e. \<not> isArray e) new)"
proof (induction script arbitrary: st)
  case Nil
  then show ?case by (auto split: if_splits)
next
  case (Cons outcome script)
  let ?p = "Progress (progress (rnd P) (processedRequestID st) lastId)"
  let ?s1 = "send ?p st"
  have pr: "Q ?p" by (rule qp)
  have na: "\<not> isArray ?p" by (simp add: isArray_def)
  show ?case
  proof (cases "loopCondition opts st")
    case False
    with Cons.prems show ?thesis unfolding fetchLoop_Cons by auto
  next
    case True
    show ?thesis
    proof (cases outcome)
      case Stopped
      with True Cons.prems pr na show ?thesis
        unfolding fetchLoop_Cons by (auto simp: callStopResolve_def)
    next
      case (Failed msg)
      with True Cons.prems pr na show ?thesis
        unfolding fetchLoop_Cons by auto
    next
      case (Fetched pg)
      let ?s2 = "snd (processItems P opts rx (items pg) ?s1)"
      have f2: "sent ?s2 = sent st @ [?p]" "sentMatchCount ?s2 = sentMatchCount st"
        using processItems_frame[of P opts rx "items pg" ?s1] by simp_all
      show ?thesis
      proof (cases "fst (processItems P opts rx (items pg) ?s1)")
        case (Some msg)
        with True Fetched Cons.prems f2 pr na show ?thesis
          unfolding fetchLoop_Cons by auto
      next
        case None
        let ?s3 = "advancePage pg (sendNewMatches ?s2)"
        from None True Fetched Cons.prems
        have "fetchLoop P opts rx lastId script ?s3 = Some (res, st')"
          unfolding fetchLoop_Cons by simp
        from Cons.IH[OF this] obtain new where
          n: "sent st' = sent ?s3 @ new" "sentMatchCount ?s3 \<le> sentMatchCount st'"
             "list_all Q new"
             "25000 < sentMatchCount ?s3 \<longrightarrow> list_all (\<lambda>e. \<not> isArray e) new" by blast
        from sendNewMatches_events[of Q ?s2, OF qm qc] obtain new0 where
          n0: "sent (sendNewMatches ?s2) = sent ?s2 @ new0"
              "sentMatchCount ?s2 \<le> sentMatchCount (sendNewMatches ?s2)"
              "list_all Q new0"
              "25000 < sentMatchCount ?s2 \<longrightarrow> list_all (\<lambda>e. \<not> isArray e) new0" by blast
        have "sent st' = sent st @ ([?p] @ new0 @ new)" using n(1) n0(1) f2(1) by simp
        moreover have "sentMatchCount st \<le> sentMatchCount st'" using n(2) n0(2) f2(2) by simp
        moreover have "list_all Q ([?p] @ new0 @ new)" using pr n(3) n0(3) by simp
        moreover have "25000 < sentMatchCount st \<longrightarrow> list_all (\<lambda>e. \<not> isArray e) ([?p] @ new0 @ new)"
          using na n(4) n0(4) n0(2) f2(2) by auto
        ultimately show ?thesis by blast
      qed
    qed
  qed
qed





lemma arraysSent_append: "arraysSent (es @ fs) = arraysSent es @ arraysSent fs"
  by (induction es rule: arraysSent.induct) simp_all

lemma sentInv_grow:
  assumes "sentInv b st" and "sent st' = sent st" and "sentMatchCount st' = sentMatchCount st"
    and "matches st' = matches st @ ext"
  shows "sentInv b st'"
  using assms by (auto simp: sentInv_def mapValues_def)

lemma sentInv_progress:
  "sentInv b st \<Longrightarrow> sentInv b (send (Progress p) st)"
  by (auto simp: sentInv_def send_def arraysSent_append)

lemma sentInv_sendNewMatches:
  assumes "sentInv b st"
  shows "sentInv b (sendNewMatches st)"
proof (cases "sentMatchCount st < length (matches st)")
  case False
  then show ?thesis using assms by (simp add: sendNewMatches_def)
next
  case True
  let ?A = "arraysSent (drop b (sent st))"
  let ?vs = "mapValues (matches st)"
  from assms have a: "?A = take (length ?A) ?vs" "length ?A \<le> sentMatchCount st"
    "sentMatchCount st \<le> 25000 \<longrightarrow> length ?A = sentMatchCount st" "b \<le> length (sent st)"
    by (simp_all add: sentInv_def)
  have lv: "length ?vs = length (matches st)" by (simp add: mapValues_def)
  show ?thesis
  proof (cases "25000 < sentMatchCount st")
    case True
    with \<open>sentMatchCount st < length (matches st)\<close> a lv show ?thesis
      by (simp add: sentInv_def sendNewMatches_def send_def Let_def arraysSent_append)
  next
    case False
    then have n: "length ?A = sentMatchCount st" using a(3) by simp
    have "?A @ drop (sentMatchCount st) ?vs = ?vs"
      using a(1) n by (metis append_take_drop_id)
    with False \<open>sentMatchCount st < length (matches st)\<close> a(4) lv show ?thesis
      by (simp add: sentInv_def sendNewMatches_def send_def Let_def arraysSent_append)
  qed
qed

lemma sentInv_cong:
  "sent st' = sent st \<Longrightarrow> sentMatchCount st' = sentMatchCount st \<Longrightarrow> matches st' = matches st \<Longrightarrow>
   sentInv b st' = sentInv b st"
  by (simp add: sentInv_def)

lemma fetchLoop_sentInv:
  "sentInv b st \<Longrightarrow> fetchLoop P opts rx lastId script st = Some (res, st') \<Longrightarrow>
   sentInv b st' \<and> (\<exists>ext. matches st' = matches st @ ext)"
proof (induction script arbitrary: st)
  case Nil
  then show ?case by (auto split: if_splits)
next
  case (Cons outcome script)
  let ?s1 = "send (Progress (progress (rnd P) (processedRequestID st) lastId)) st"
  have i1: "sentInv b ?s1" using Cons.prems(1) by (rule sentInv_progress)
  have i2: "sentInv b (callStopResolve (?s1\<lparr>isGrepActive := False, stopResolve := True\<rparr>))"
    using i1 sentInv_cong[of "callStopResolve (?s1\<lparr>isGrepActive := False, stopResolve := True\<rparr>)" ?s1 b]
    by simp
  have g: "\<exists>ext. matches (snd (processItems P opts rx its ?s1)) = matches st @ ext" for its
    using processItems_grows[of P opts rx its ?s1] by simp
  have i3: "sentInv b (snd (processItems P opts rx its ?s1))" for its
  proof -
    from g[of its] obtain ext where "matches (snd (processItems P opts rx its ?s1)) = matches ?s1 @ ext"
      by auto
    with processItems_frame[of P opts rx its ?s1] show ?thesis
      by (intro sentInv_grow[OF i1]) simp_all
  qed
  have i4: "sentInv b (advancePage pg (sendNewMatches (snd (processItems P opts rx its ?s1))))" for pg its
    using sentInv_sendNewMatches[OF i3[of its]]
      sentInv_cong[of "advancePage pg (sendNewMatches (snd (processItems P opts rx its ?s1)))"
        "sendNewMatches (snd (processItems P opts rx its ?s1))" b]
    by simp
  have step: "sentInv b st' \<and> (\<exists>ext. matches st' = matches st @ ext)"
    if "fetchLoop P opts rx lastId script
          (advancePage pg (sendNewMatches (snd (processItems P opts rx its ?s1)))) = Some (res, st')"
    for pg its
  proof -
    from Cons.IH[OF i4 that] obtain e2 where
      a: "sentInv b st'" "matches st' = matches (snd (processItems P opts rx its ?s1)) @ e2" by auto
    from g[of its] obtain e1 where "matches (snd (processItems P opts rx its ?s1)) = matches st @ e1"
      by blast
    with a show ?thesis by simp
  qed
  show ?case
    using Cons.prems i1 i2 i3 g step
    unfolding fetchLoop_Cons
    by (auto split: if_splits fetch_outcome.splits option.splits)
qed


lemma run_sentInv:
  assumes "fetchAndProcessRequests P opts rx lastId script st = Some (res, st')"
  shows "sentInv (length (sent st)) st'"
proof -
  let ?s0 = "st\<lparr>matches := [], hasNextPage := True, after := None,
        processedRequestID := 0, sentMatchCount := 0, rawMatchCount := 0\<rparr>"
  have "sentInv (length (sent st)) ?s0" by (simp add: sentInv_def mapValues_def)
  moreover have "fetchLoop P opts rx lastId script ?s0 = Some (res, st')"
    using assms by (simp add: fetchAndProcessRequests_def)
  ultimately show ?thesis using fetchLoop_sentInv by blast
qed

section \<open>The entry points\<close>







text \<open>
  Claim C3. With \<^verbatim>\<open>maxResults\<close> \<open>= k > 0\<close>, the count that
  \<^verbatim>\<open>fetchAndProcessRequests\<close> returns is at most \<open>k\<close>; the loop condition holds only
  below \<open>k\<close>; with \<open>k\<close> entries the records of a page change neither the map nor the
  store; from at most \<open>k\<close> entries both loops end with at most \<open>k\<close>. The function
  returns when one of the outcomes ends the pagination.
\<close>

theorem maxResults_bound:
  assumes "maxResults opts = Some k" and "0 < k"
  shows "(fetchAndProcessRequests P opts rx lastId script st = Some r \<longrightarrow>
            length (matches (snd r)) \<le> k \<and>
            (\<forall>n. fst r = Inr n \<longrightarrow> n \<le> k)) \<and>
         (loopCondition opts s \<longrightarrow> length (matches s) < k) \<and>
         (k \<le> length (matches s) \<longrightarrow>
            matches (snd (processItems P opts rx its s)) = matches s \<and>
            grepStore (snd (processItems P opts rx its s)) = grepStore s) \<and>
         (length (matches s) \<le> k \<longrightarrow>
            length (matches (snd (processItems P opts rx its s))) \<le> k \<and>
            (fetchLoop P opts rx lastId script s = Some r' \<longrightarrow> length (matches (snd r')) \<le> k)) \<and>
         ((\<exists>outcome \<in> set script. terminal outcome) \<longrightarrow>
            fetchAndProcessRequests P opts rx lastId script st \<noteq> None)"
proof (intro conjI impI allI)
  let ?s0 = "st\<lparr>matches := [], hasNextPage := True, after := None,
        processedRequestID := 0, sentMatchCount := 0, rawMatchCount := 0\<rparr>"
  assume a: "fetchAndProcessRequests P opts rx lastId script st = Some r"
  obtain res s3 where r: "r = (res, s3)" by (cases r)
  from a r have f: "fetchLoop P opts rx lastId script ?s0 = Some (res, s3)"
    by (simp add: fetchAndProcessRequests_def)
  have "length (matches ?s0) \<le> k" by simp
  from fetchLoop_max[OF assms this f] show l: "length (matches (snd r)) \<le> k" by (simp add: r)
  fix n assume n: "fst r = Inr n"
  with f r have "n = length (matches s3)" using fetchLoop_result_count by simp
  then show "n \<le> k" using l r by simp
next
  show "loopCondition opts s \<Longrightarrow> length (matches s) < k"
    using assms by (simp add: loopCondition_def)
  show "k \<le> length (matches s) \<Longrightarrow> matches (snd (processItems P opts rx its s)) = matches s"
    using processItems_at_max[OF assms] by blast
  show "k \<le> length (matches s) \<Longrightarrow> grepStore (snd (processItems P opts rx its s)) = grepStore s"
    using processItems_at_max[OF assms] by blast
  show "length (matches s) \<le> k \<Longrightarrow> length (matches (snd (processItems P opts rx its s))) \<le> k"
    by (rule processItems_max[OF assms])
  show "length (matches s) \<le> k \<Longrightarrow> fetchLoop P opts rx lastId script s = Some r' \<Longrightarrow>
        length (matches (snd r')) \<le> k"
    using fetchLoop_max[OF assms, of s P rx lastId script "fst r'" "snd r'"] by simp
  show "\<exists>outcome \<in> set script. terminal outcome \<Longrightarrow>
        fetchAndProcessRequests P opts rx lastId script st \<noteq> None"
    unfolding fetchAndProcessRequests_def by (rule fetchLoop_returns)
qed

text \<open>
  Claim C6. At the end of a page nothing is sent unless the map has grown past the
  number sent; then the event carries the entries added since the last emission when
  that number is at most 25000, and only their count when it is above 25000, and the
  number sent becomes the size of the map. The number sent never decreases in a run, so
  from a state above 25000 the loop sends no array. The arrays sent in a run, one after
  the other, are an initial segment of the map's values: no entry is sent twice.
\<close>

theorem matches_event_threshold:
  "(length (matches st) \<le> sentMatchCount st \<longrightarrow> sendNewMatches st = st) \<and>
   (sentMatchCount st < length (matches st) \<longrightarrow> sentMatchCount st \<le> 25000 \<longrightarrow>
      sendNewMatches st =
        st\<lparr>sent := sent st @ [Matches (drop (sentMatchCount st) (mapValues (matches st)))],
           sentMatchCount := length (matches st)\<rparr>) \<and>
   (sentMatchCount st < length (matches st) \<longrightarrow> 25000 < sentMatchCount st \<longrightarrow>
      sendNewMatches st =
        st\<lparr>sent := sent st @ [MatchesCount (length (matches st) - sentMatchCount st)],
           sentMatchCount := length (matches st)\<rparr>) \<and>
   (fetchLoop P opts rx lastId script st = Some r \<longrightarrow>
      (\<exists>new. sent (snd r) = sent st @ new \<and>
             sentMatchCount st \<le> sentMatchCount (snd r) \<and>
             (25000 < sentMatchCount st \<longrightarrow> list_all (\<lambda>e. \<not> isArray e) new))) \<and>
   (fetchAndProcessRequests P opts rx lastId script st = Some r \<longrightarrow>
      sentInv (length (sent st)) (snd r))"
proof -
  have run: "\<exists>new. sent (snd r) = sent st @ new \<and>
             sentMatchCount st \<le> sentMatchCount (snd r) \<and>
             (25000 < sentMatchCount st \<longrightarrow> list_all (\<lambda>e. \<not> isArray e) new)"
    if f: "fetchLoop P opts rx lastId script st = Some r"
  proof -
    from f have "fetchLoop P opts rx lastId script st = Some (fst r, snd r)" by simp
    from fetchLoop_events[of "\<lambda>e. True", OF _ _ _ this] show ?thesis by auto
  qed
  have inv: "sentInv (length (sent st)) (snd r)"
    if "fetchAndProcessRequests P opts rx lastId script st = Some r"
  proof -
    from that have "fetchAndProcessRequests P opts rx lastId script st = Some (fst r, snd r)" by simp
    then show ?thesis by (rule run_sentInv)
  qed
  show ?thesis using sendNewMatches_cases[of st] run inv by blast
qed


section \<open>The claims at concrete inputs\<close>

lemmas demo_defs =
  grepRequests_def executeGrepSearch_def fetchAndProcessRequests_def demoPlatform_def
  demoHost_def demoItems_def demoOptions_def idleState_def activeState_def getLastRequestID_def
  loopCondition_def send_def progress_def callStopResolve_def maxReached_def
  findMatchesInRequestResponse_def extractMatches_map extractOne_def matchGroup_def rx_host_def
  indexOf_def occursAt_def attribute_def trim_def isWhiteSpace_def transformStep_def mapHas_def
  addMatch_def sendNewMatches_def mapValues_def advancePage_def insertFinal_def Let_def




theorem maxResults_bound_witness:
  "maxResults (demoOptions\<lparr>maxResults := Some 1\<rparr>) = Some 1 \<and> (0::nat) < 1 \<and>
   fetchAndProcessRequests demoPlatform (demoOptions\<lparr>maxResults := Some 1\<rparr>) rx_host 3 (pages demoHost) activeState \<noteq> None \<and>
   fst (the (fetchAndProcessRequests demoPlatform (demoOptions\<lparr>maxResults := Some 1\<rparr>) rx_host 3 (pages demoHost) activeState)) = Inr 1 \<and>
   length (matches (snd (the (fetchAndProcessRequests demoPlatform (demoOptions\<lparr>maxResults := Some 1\<rparr>) rx_host 3 (pages demoHost) activeState)))) \<le> 1 \<and>
   loopCondition (demoOptions\<lparr>maxResults := Some 1\<rparr>) (activeState\<lparr>hasNextPage := True\<rparr>) \<and>
   length (matches (activeState\<lparr>hasNextPage := True\<rparr>)) < 1 \<and>
   1 \<le> length (matches fullState) \<and>
   matches (snd (processItems demoPlatform (demoOptions\<lparr>maxResults := Some 1\<rparr>) rx_host demoItems fullState)) = matches fullState \<and>
   length (matches activeState) \<le> 1 \<and>
   length (matches (snd (processItems demoPlatform (demoOptions\<lparr>maxResults := Some 1\<rparr>) rx_host demoItems activeState))) \<le> 1 \<and>
   terminal (hd (pages demoHost))"
proof -
  let ?o = "demoOptions\<lparr>maxResults := Some 1\<rparr>"
  let ?f = "fetchAndProcessRequests demoPlatform ?o rx_host 3 (pages demoHost) activeState"
  have k: "maxResults ?o = Some 1" by simp
  have z: "(0::nat) < 1" by simp
  have t: "terminal (hd (pages demoHost))" by (simp add: demoHost_def terminal_def)
  then have t': "\<exists>outcome \<in> set (pages demoHost). terminal outcome" by (simp add: demoHost_def)
  note T = maxResults_bound[OF k z, where P = demoPlatform and rx = rx_host and lastId = 3
      and script = "pages demoHost" and st = activeState and its = demoItems]
  have n: "?f \<noteq> None"
    using T[THEN conjunct2, THEN conjunct2, THEN conjunct2, THEN conjunct2, rule_format, OF t'] .
  then have e: "?f = Some (the ?f)" by simp
  have v: "fst (the ?f) = Inr 1" by (simp add: demo_defs)
  note T1 = T[where r = "the ?f", THEN conjunct1, rule_format, OF e]
  have lc: "loopCondition ?o (activeState\<lparr>hasNextPage := True\<rparr>)"
    by (simp add: loopCondition_def activeState_def idleState_def)
  have fl: "1 \<le> length (matches fullState)" by (simp add: fullState_def)
  have al: "length (matches activeState) \<le> 1" by (simp add: activeState_def idleState_def)
  show ?thesis
    by (intro conjI k z n v T1[THEN conjunct1] lc
        T[where s = "activeState\<lparr>hasNextPage := True\<rparr>", THEN conjunct2, THEN conjunct1, rule_format, OF lc]
        fl T[where s = fullState, THEN conjunct2, THEN conjunct2, THEN conjunct1, rule_format, OF fl, THEN conjunct1]
        al T[where s = activeState, THEN conjunct2, THEN conjunct2, THEN conjunct2, THEN conjunct1, rule_format, OF al, THEN conjunct1]
        t)
qed

lemma manyMatches_length: "length manyMatches = 25002"
  by (simp add: manyMatches_def)

theorem matches_event_threshold_witness:
  "length (matches idleState) \<le> sentMatchCount idleState \<and>
   sendNewMatches idleState = idleState \<and>
   sentMatchCount fullState < length (matches fullState) \<and> sentMatchCount fullState \<le> 25000 \<and>
   sent (sendNewMatches fullState) = [Matches [match_a1]] \<and>
   sentMatchCount (sendNewMatches fullState) = 1 \<and>
   sentMatchCount lateState < length (matches lateState) \<and> 25000 < sentMatchCount lateState \<and>
   sent (sendNewMatches lateState) = [MatchesCount 1] \<and>
   sentMatchCount (sendNewMatches lateState) = 25002 \<and>
   fetchLoop demoPlatform demoOptions rx_host 3 emptyPage lateState \<noteq> None \<and>
   sent lateState = [] \<and>
   list_all (\<lambda>e. \<not> isArray e)
     (sent (snd (the (fetchLoop demoPlatform demoOptions rx_host 3 emptyPage lateState)))) \<and>
   sent (snd (the (fetchLoop demoPlatform demoOptions rx_host 3 emptyPage lateState))) =
     [Progress 0, MatchesCount 1] \<and>
   fetchAndProcessRequests demoPlatform demoOptions rx_host 3 (pages demoHost) activeState \<noteq> None \<and>
   sentInv (length (sent activeState))
     (snd (the (fetchAndProcessRequests demoPlatform demoOptions rx_host 3 (pages demoHost) activeState))) \<and>
   arraysSent (sent (snd (the (fetchAndProcessRequests demoPlatform demoOptions rx_host 3 (pages demoHost) activeState)))) =
     [match_a1, \<lparr>value = ''b.io'', startIndex = 6, endIndex = 10, requestId = ''3'', source = request\<rparr>]"
proof -
  let ?g = "fetchAndProcessRequests demoPlatform demoOptions rx_host 3 (pages demoHost) activeState"
  have gn: "?g \<noteq> None" by (simp add: demo_defs)
  then have ge: "?g = Some (the ?g)" by simp
  have ga: "arraysSent (sent (snd (the ?g))) =
     [match_a1, \<lparr>value = ''b.io'', startIndex = 6, endIndex = 10, requestId = ''3'', source = request\<rparr>]"
    by (simp add: demo_defs match_a1_def)
  let ?f = "fetchLoop demoPlatform demoOptions rx_host 3 emptyPage lateState"
  have a: "length (matches idleState) \<le> sentMatchCount idleState" by (simp add: idleState_def)
  have b1: "sentMatchCount fullState < length (matches fullState)"
    and b2: "sentMatchCount fullState \<le> 25000"
    and b3: "sent fullState = []" "mapValues (matches fullState) = [match_a1]"
    by (simp_all add: fullState_def activeState_def idleState_def mapValues_def)
  have c1: "sentMatchCount lateState < length (matches lateState)"
    and c2: "25000 < sentMatchCount lateState"
    and c3: "sent lateState = []" "length (matches lateState) = 25002" "sentMatchCount lateState = 25001"
    by (simp_all add: lateState_def activeState_def idleState_def manyMatches_length)
  have n: "?f \<noteq> None"
    by (simp add: emptyPage_def loopCondition_def lateState_def activeState_def idleState_def
        demoOptions_def Let_def)
  then have e: "?f = Some (the ?f)" by simp
  have v: "sent (snd (the ?f)) = [Progress 0, MatchesCount 1]"
    by (simp add: emptyPage_def loopCondition_def lateState_def activeState_def idleState_def
        demoOptions_def demoPlatform_def Let_def send_def progress_def sendNewMatches_def
        advancePage_def mapValues_def manyMatches_length)
  note T = matches_event_threshold[where P = demoPlatform and opts = demoOptions and rx = rx_host
      and lastId = 3 and script = emptyPage and r = "the ?f"]
  note A = T[where st = idleState, THEN conjunct1, rule_format, OF a]
  note B = T[where st = fullState, THEN conjunct2, THEN conjunct1, rule_format, OF b1 b2]
  note C = T[where st = lateState, THEN conjunct2, THEN conjunct2, THEN conjunct1, rule_format, OF c1 c2]
  from T[where st = lateState, THEN conjunct2, THEN conjunct2, THEN conjunct2, THEN conjunct1, rule_format, OF e]
  obtain new where new: "sent (snd (the ?f)) = sent lateState @ new"
    "25000 < sentMatchCount lateState \<longrightarrow> list_all (\<lambda>e. \<not> isArray e) new" by blast
  from new c2 c3(1) have D: "list_all (\<lambda>e. \<not> isArray e) (sent (snd (the ?f)))" by simp
  have B1: "sent (sendNewMatches fullState) = [Matches [match_a1]]"
    unfolding B using b3 by (simp add: fullState_def activeState_def idleState_def)
  have B2: "sentMatchCount (sendNewMatches fullState) = 1"
    unfolding B by (simp add: fullState_def activeState_def idleState_def)
  have C1: "sent (sendNewMatches lateState) = [MatchesCount 1]"
    unfolding C using c3 by simp
  have C2: "sentMatchCount (sendNewMatches lateState) = 25002"
    unfolding C using c3 by simp
  note E = matches_event_threshold[where P = demoPlatform and opts = demoOptions and rx = rx_host
      and lastId = 3 and script = "pages demoHost" and r = "the ?g" and st = activeState,
      THEN conjunct2, THEN conjunct2, THEN conjunct2, THEN conjunct2, rule_format, OF ge]
  show ?thesis by (intro conjI a A b1 b2 B1 B2 c1 c2 C1 C2 n c3(1) D v gn E ga)
qed

theorem applyTransform_fails_open_witness:
  "runScript demoPlatform ''return null;'' ''a.io'' = ScriptReturned JSNull \<and>
   applyTransform demoPlatform ''a.io'' ''return null;'' = None \<and>
   runScript demoPlatform ''return match;'' ''a.io'' = ScriptReturned (JSString ''a.io'') \<and>
   applyTransform demoPlatform ''a.io'' ''return match;'' = Some ''a.io'' \<and>
   runScript demoPlatform ''return match.length;'' ''a.io'' = ScriptReturned (JSOther (Some ''4'')) \<and>
   applyTransform demoPlatform ''a.io'' ''return match.length;'' = Some ''4'' \<and>
   runScript demoPlatform ''return match.('' ''a.io'' = ScriptThrew \<and>
   applyTransform demoPlatform ''a.io'' ''return match.('' = Some ''a.io'' \<and>
   transformScript (demoOptions\<lparr>transformScript := Some ''return match.(''\<rparr>) = Some ''return match.('' \<and>
   runScript demoPlatform ''return match.('' (trim (value match_a2)) = ScriptThrew \<and>
   processMatches demoPlatform (demoOptions\<lparr>transformScript := Some ''return match.(''\<rparr>) [match_a2] idleState =
     processMatches demoPlatform demoOptions [match_a2] idleState \<and>
   matches (processMatches demoPlatform demoOptions [match_a2] idleState) =
     [(''a.io'', match_a2\<lparr>value := ''a.io''\<rparr>)]"
proof -
  let ?o = "demoOptions\<lparr>transformScript := Some ''return match.(''\<rparr>"
  have h1: "runScript demoPlatform ''return null;'' ''a.io'' = ScriptReturned JSNull"
    and h2: "runScript demoPlatform ''return match;'' ''a.io'' = ScriptReturned (JSString ''a.io'')"
    and h3: "runScript demoPlatform ''return match.length;'' ''a.io'' = ScriptReturned (JSOther (Some ''4''))"
    and h4: "runScript demoPlatform ''return match.('' ''a.io'' = ScriptThrew"
    and h5: "runScript demoPlatform ''return match.('' (trim (value match_a2)) = ScriptThrew"
    by (simp_all add: demoPlatform_def)
  have s: "transformScript ?o = Some ''return match.(''" by simp
  have o: "?o\<lparr>transformScript := None\<rparr> = demoOptions" by (simp add: demoOptions_def)
  have m: "matches (processMatches demoPlatform demoOptions [match_a2] idleState) =
     [(''a.io'', match_a2\<lparr>value := ''a.io''\<rparr>)]"
    by (simp add: demo_defs match_a2_def)
  note T = applyTransform_fails_open[where P = demoPlatform]
  have r1: "applyTransform demoPlatform ''a.io'' ''return null;'' = None"
    using T[where v = "''a.io''" and script = "''return null;''", THEN conjunct1] h1 by simp
  note r2 = T[where v = "''a.io''" and script = "''return match;''", THEN conjunct2, THEN conjunct1,
      rule_format, OF h2]
  note r3 = T[where v = "''a.io''" and script = "''return match.length;''", THEN conjunct2,
      THEN conjunct2, THEN conjunct1, rule_format, OF h3]
  note r4 = T[where v = "''a.io''" and script = "''return match.(''", THEN conjunct2,
      THEN conjunct2, THEN conjunct2, THEN conjunct1, rule_format, OF h4]
  note r5 = T[where opts = ?o and script = "''return match.(''" and m = match_a2 and st = idleState,
      THEN conjunct2, THEN conjunct2, THEN conjunct2, THEN conjunct2, THEN conjunct2,
      rule_format, OF s h5, unfolded o]
  show ?thesis by (intro conjI h1 r1 h2 r2 h3 r3 h4 r4 s h5 r5 m)
qed


end
